theory Spec2Isabelle
  imports Main "HOL-Library.Word"
begin

unbundle bit_operations_syntax

section \<open>The cache simulator of csim.c\<close>

subsection \<open>Data model\<close>

text \<open>
  \<^verbatim>\<open>typedef unsigned long long int mem_addr_t;\<close>

  \<^verbatim>\<open>typedef struct cache_line { char valid; mem_addr_t tag; int lru_counter; } cache_line_t;\<close>

  The \<^verbatim>\<open>char\<close> field is kept as a byte that the code tests against zero. The counters of
  type \<^verbatim>\<open>int\<close> (the recency counter and the three statistics) hold integers of 32 bits,
  and the only arithmetic the code does on them is \<^verbatim>\<open>++\<close>. At the greatest value,
  2147483647, the increment overflows: the compiled program wraps around to -2147483648,
  and \<open>incr_int\<close> does the same.
\<close>

definition incr_int :: "int \<Rightarrow> int" where
  "incr_int x = (if x = 2147483647 then - 2147483648 else x + 1)"

type_synonym mem_addr_t = "64 word"

record cache_line =
  valid :: "8 word"
  tag :: mem_addr_t
  lru_counter :: int

type_synonym cache_set_t = "cache_line list"
type_synonym cache_t = "cache_set_t list"

text \<open>
  The globals that the simulation mutates: the cache and the three statistics. The
  globals \<^verbatim>\<open>s\<close>, \<open>b\<close> and \<open>E\<close> are set once from the command line and are passed to
  every function as parameters.
\<close>

record sim =
  cache :: cache_t
  miss_count :: int
  hit_count :: int
  eviction_count :: int

text \<open>
  Array accesses \<^verbatim>\<open>cache[setIndex][i]\<close>. A read or write outside the allocated sets and
  lines has no defined behaviour; the model returns \<open>None\<close> for it.
\<close>

definition line_at :: "cache_t \<Rightarrow> nat \<Rightarrow> nat \<Rightarrow> cache_line option" where
  "line_at c setIndex i =
     (if setIndex < length c \<and> i < length (c ! setIndex) then Some (c ! setIndex ! i) else None)"

definition set_line :: "cache_t \<Rightarrow> nat \<Rightarrow> nat \<Rightarrow> cache_line \<Rightarrow> cache_t" where
  "set_line c setIndex i l = c[setIndex := (c ! setIndex)[i := l]]"

subsection \<open>initCache\<close>

text \<open>
  \<^verbatim>\<open>S = pow(2, s)\<close> converts a double to \<^verbatim>\<open>int\<close>: the fraction of a negative power is
  truncated to 0, and a power of \<open>2 ^ 31\<close> or more does not fit (no defined result).
  Every line starts with \<open>valid = 0\<close>, \<open>tag = 0\<close>, \<open>lru_counter = 0\<close>; the statistics are
  the globals' initial zeros. A negative \<open>E\<close> gives sets with no line.
\<close>

definition empty_line :: cache_line where
  "empty_line = \<lparr>valid = 0, tag = 0, lru_counter = 0\<rparr>"

definition initCache :: "int \<Rightarrow> int \<Rightarrow> sim option" where
  "initCache s E =
     (if 31 \<le> s then None
      else Some \<lparr>cache = replicate (if s < 0 then 0 else 2 ^ nat s) (replicate (nat E) empty_line),
                 miss_count = 0, hit_count = 0, eviction_count = 0\<rparr>)"

subsection \<open>updateLRU\<close>

text \<open>
  \<^verbatim>\<open>for (int i = 0; i < E; i++)
    if (i != lineIndex && cache[setIndex][i].valid) cache[setIndex][i].lru_counter++;
cache[setIndex][lineIndex].lru_counter = 0;\<close>
\<close>

function updateLRU_loop :: "int \<Rightarrow> cache_t \<Rightarrow> nat \<Rightarrow> nat \<Rightarrow> nat \<Rightarrow> cache_t option" where
  "updateLRU_loop E c setIndex lineIndex i =
     (if int i < E then
        (case line_at c setIndex i of
           None \<Rightarrow> None
         | Some l \<Rightarrow>
             if i \<noteq> lineIndex \<and> valid l \<noteq> 0
             then updateLRU_loop E
                    (set_line c setIndex i (l\<lparr>lru_counter := incr_int (lru_counter l)\<rparr>))
                    setIndex lineIndex (i + 1)
             else updateLRU_loop E c setIndex lineIndex (i + 1))
      else Some c)"
  by pat_completeness auto
termination
  by (relation "measure (\<lambda>(E, c, setIndex, lineIndex, i). nat (E - int i))") auto

definition updateLRU :: "int \<Rightarrow> cache_t \<Rightarrow> nat \<Rightarrow> nat \<Rightarrow> cache_t option" where
  "updateLRU E c setIndex lineIndex =
     (case updateLRU_loop E c setIndex lineIndex 0 of
        None \<Rightarrow> None
      | Some c' \<Rightarrow>
          (case line_at c' setIndex lineIndex of
             None \<Rightarrow> None
           | Some l \<Rightarrow> Some (set_line c' setIndex lineIndex (l\<lparr>lru_counter := 0\<rparr>))))"

subsection \<open>accessData: address decoding\<close>

text \<open>
  \<^verbatim>\<open>mem_addr_t tag = addr >> (s + b);\<close>
  \<^verbatim>\<open>int setIndex = (addr >> b) & ((1 << s) - 1);\<close>

  A shift of a 64-bit value is defined for counts from 0 to 63. \<^verbatim>\<open>1 << s\<close> is a shift of
  the \<^verbatim>\<open>int\<close> constant 1, defined when \<open>s\<close> is not negative and \<open>2 ^ s\<close> fits an
  \<^verbatim>\<open>int\<close> of 32 bits, that is for \<open>s\<close> from 0 to 30. The mask is converted to 64 bits for
  the conjunction, and the result back to \<^verbatim>\<open>int\<close> by keeping its low 32 bits.
\<close>

definition shl_int :: "int \<Rightarrow> int \<Rightarrow> int option" where
  "shl_int x n =
     (if 0 \<le> x \<and> 0 \<le> n \<and> n < 32 \<and> x * 2 ^ nat n \<le> 2147483647
      then Some (x * 2 ^ nat n) else None)"

definition shr_addr :: "mem_addr_t \<Rightarrow> int \<Rightarrow> mem_addr_t option" where
  "shr_addr addr n = (if 0 \<le> n \<and> n < 64 then Some (drop_bit (nat n) addr) else None)"

definition accessData_decode :: "int \<Rightarrow> int \<Rightarrow> mem_addr_t \<Rightarrow> (mem_addr_t \<times> int) option" where
  "accessData_decode s b addr =
     (case shr_addr addr (s + b) of
        None \<Rightarrow> None
      | Some t \<Rightarrow>
          (case shr_addr addr b of
             None \<Rightarrow> None
           | Some blk \<Rightarrow>
               (case shl_int 1 s of
                  None \<Rightarrow> None
                | Some m \<Rightarrow>
                    Some (t, sint (ucast (blk AND word_of_int (m - 1)) :: 32 word)))))"

subsection \<open>accessData: the scan of the set and the placement\<close>

text \<open>The local variables of \<^verbatim>\<open>accessData\<close> that the scan sets.\<close>

record scan_vars =
  hit :: int
  empty_index :: int
  lru_index :: nat
  max_lru :: int

definition scan_init :: scan_vars where
  "scan_init = \<lparr>hit = 0, empty_index = - 1, lru_index = 0, max_lru = - 1\<rparr>"

text \<open>
  The \<^verbatim>\<open>for\<close> loop of \<^verbatim>\<open>accessData\<close>. On a hit the loop counts the hit, calls
  \<^verbatim>\<open>updateLRU\<close> and leaves by \<^verbatim>\<open>break\<close>.
\<close>

function accessData_loop ::
  "int \<Rightarrow> nat \<Rightarrow> mem_addr_t \<Rightarrow> nat \<Rightarrow> scan_vars \<Rightarrow> sim \<Rightarrow> (scan_vars \<times> sim) option" where
  "accessData_loop E setIndex t i v st =
     (if int i < E then
        (case line_at (cache st) setIndex i of
           None \<Rightarrow> None
         | Some l \<Rightarrow>
             if valid l \<noteq> 0 then
               if tag l = t then
                 (case updateLRU E (cache st) setIndex i of
                    None \<Rightarrow> None
                  | Some c' \<Rightarrow>
                      Some (v\<lparr>hit := 1\<rparr>,
                            st\<lparr>hit_count := incr_int (hit_count st), cache := c'\<rparr>))
               else if lru_counter l > max_lru v then
                 accessData_loop E setIndex t (i + 1)
                   (v\<lparr>max_lru := lru_counter l, lru_index := i\<rparr>) st
               else accessData_loop E setIndex t (i + 1) v st
             else if empty_index v = - 1 then
               accessData_loop E setIndex t (i + 1) (v\<lparr>empty_index := int i\<rparr>) st
             else accessData_loop E setIndex t (i + 1) v st)
      else Some (v, st))"
  by pat_completeness auto
termination
  by (relation "measure (\<lambda>(E, setIndex, t, i, v, st). nat (E - int i))") auto

text \<open>
  The part of \<^verbatim>\<open>accessData\<close> after the loop: on a miss, count it and either fill the
  first empty line or overwrite the tag of the line at \<open>lru_index\<close>. The printing under
  \<^verbatim>\<open>verbosity\<close> changes no state and is left out.
\<close>

definition accessData_place :: "int \<Rightarrow> nat \<Rightarrow> mem_addr_t \<Rightarrow> scan_vars \<Rightarrow> sim \<Rightarrow> sim option" where
  "accessData_place E setIndex t v st =
     (if hit v = 0 then
        (let st1 = st\<lparr>miss_count := incr_int (miss_count st)\<rparr> in
         if empty_index v \<noteq> - 1 then
           (case line_at (cache st1) setIndex (nat (empty_index v)) of
              None \<Rightarrow> None
            | Some l \<Rightarrow>
                (case updateLRU E
                        (set_line (cache st1) setIndex (nat (empty_index v))
                           (l\<lparr>valid := 1, tag := t\<rparr>))
                        setIndex (nat (empty_index v)) of
                   None \<Rightarrow> None
                 | Some c' \<Rightarrow> Some (st1\<lparr>cache := c'\<rparr>)))
         else
           (let st2 = st1\<lparr>eviction_count := incr_int (eviction_count st1)\<rparr> in
            case line_at (cache st2) setIndex (lru_index v) of
              None \<Rightarrow> None
            | Some l \<Rightarrow>
                (case updateLRU E
                        (set_line (cache st2) setIndex (lru_index v) (l\<lparr>tag := t\<rparr>))
                        setIndex (lru_index v) of
                   None \<Rightarrow> None
                 | Some c' \<Rightarrow> Some (st2\<lparr>cache := c'\<rparr>))))
      else Some st)"

text \<open>
  \<^verbatim>\<open>void accessData(mem_addr_t addr)\<close>. A negative \<open>setIndex\<close> would index before the
  array, so it is outside the defined behaviour like any other index out of range.
\<close>

definition accessData :: "int \<Rightarrow> int \<Rightarrow> int \<Rightarrow> sim \<Rightarrow> mem_addr_t \<Rightarrow> sim option" where
  "accessData s b E st addr =
     (case accessData_decode s b addr of
        None \<Rightarrow> None
      | Some (t, setIndex) \<Rightarrow>
          if setIndex < 0 then None
          else
            (case accessData_loop E (nat setIndex) t 0 scan_init st of
               None \<Rightarrow> None
             | Some (v, st') \<Rightarrow> accessData_place E (nat setIndex) t v st'))"

subsection \<open>replayTrace\<close>

text \<open>
  The trace is the list of strings that successive calls of \<^verbatim>\<open>fgets(buf, 1000, trace_fp)\<close>
  deliver, and \<open>None\<close> stands for a file that \<^verbatim>\<open>fopen\<close> could not open (reading from
  the null stream has no defined behaviour). \<^verbatim>\<open>fgets\<close> stores the string and a
  terminating zero at the start of \<open>buf\<close> and leaves the rest of the array as it was;
  the array's first contents are indeterminate and are a parameter.
\<close>

record replay_vars =
  buf :: string
  addr :: mem_addr_t

definition fgets_store :: "string \<Rightarrow> string \<Rightarrow> string" where
  "fgets_store old line = line @ CHR 0x00 # drop (Suc (length line)) old"

definition buf_at :: "string \<Rightarrow> nat \<Rightarrow> char" where
  "buf_at bf i = (if i < length bf then bf ! i else CHR 0x00)"

text \<open>The C string that starts at \<^verbatim>\<open>buf + n\<close>.\<close>

definition c_string_from :: "nat \<Rightarrow> string \<Rightarrow> string" where
  "c_string_from n bf = takeWhile (\<lambda>c. c \<noteq> CHR 0x00) (drop n bf)"

text \<open>
  \<^verbatim>\<open>sscanf(buf + 3, "%llx,%u", &addr, &len)\<close> is the C library's; \<open>len\<close> is never read.
  The parameter \<open>scan\<close> gives its effect on \<open>addr\<close>: \<open>Some a\<close> when the first conversion
  succeeds and stores \<open>a\<close>, \<open>None\<close> when it fails and \<open>addr\<close> keeps the value it had. The
  return value of \<^verbatim>\<open>sscanf\<close> is not looked at.
\<close>

fun replayTrace_loop ::
  "(string \<Rightarrow> mem_addr_t option) \<Rightarrow> int \<Rightarrow> int \<Rightarrow> int \<Rightarrow> string list \<Rightarrow> replay_vars \<Rightarrow> sim
     \<Rightarrow> sim option" where
  "replayTrace_loop scan s b E [] rv st = Some st"
| "replayTrace_loop scan s b E (line # rest) rv st =
     (let bf = fgets_store (buf rv) line in
      if buf_at bf 1 = CHR ''S'' \<or> buf_at bf 1 = CHR ''L'' \<or> buf_at bf 1 = CHR ''M'' then
        (let a = (case scan (c_string_from 3 bf) of None \<Rightarrow> addr rv | Some x \<Rightarrow> x) in
         case accessData s b E st a of
           None \<Rightarrow> None
         | Some st1 \<Rightarrow>
             if buf_at bf 1 = CHR ''M'' then
               (case accessData s b E st1 a of
                  None \<Rightarrow> None
                | Some st2 \<Rightarrow> replayTrace_loop scan s b E rest \<lparr>buf = bf, addr = a\<rparr> st2)
             else replayTrace_loop scan s b E rest \<lparr>buf = bf, addr = a\<rparr> st1)
      else replayTrace_loop scan s b E rest (rv\<lparr>buf := bf\<rparr>) st)"

definition replayTrace ::
  "(string \<Rightarrow> mem_addr_t option) \<Rightarrow> int \<Rightarrow> int \<Rightarrow> int \<Rightarrow> string \<Rightarrow> string list option \<Rightarrow> sim
     \<Rightarrow> sim option" where
  "replayTrace scan s b E buf0 trace_fp st =
     (case trace_fp of
        None \<Rightarrow> None
      | Some lines \<Rightarrow> replayTrace_loop scan s b E lines \<lparr>buf = buf0, addr = 0\<rparr> st)"

subsection \<open>The conversion \<^verbatim>\<open>%llx\<close>\<close>

text \<open>
  A model of the first conversion of the format, for the concrete traces below: white
  space is skipped, then an optional sign, an optional \<^verbatim>\<open>0x\<close> before a hexadecimal digit,
  and the longest run of hexadecimal digits, which must not be empty; a number beyond 64
  bits is stored as the greatest value, with or without a sign, and a minus sign before a
  number that fits negates it modulo \<open>2 ^ 64\<close>.
\<close>

definition isspace :: "char \<Rightarrow> bool" where
  "isspace c = (c = CHR '' '' \<or> (9 \<le> (of_char c :: nat) \<and> (of_char c :: nat) \<le> 13))"

definition hex_digit :: "char \<Rightarrow> nat option" where
  "hex_digit c =
     (let n = (of_char c :: nat) in
      if 48 \<le> n \<and> n \<le> 57 then Some (n - 48)
      else if 97 \<le> n \<and> n \<le> 102 then Some (n - 87)
      else if 65 \<le> n \<and> n \<le> 70 then Some (n - 55)
      else None)"

fun hex_value :: "nat \<Rightarrow> string \<Rightarrow> nat" where
  "hex_value acc [] = acc"
| "hex_value acc (c # cs) =
     (case hex_digit c of None \<Rightarrow> acc | Some d \<Rightarrow> hex_value (16 * acc + d) cs)"

definition strip_sign :: "string \<Rightarrow> bool \<times> string" where
  "strip_sign r =
     (case r of
        [] \<Rightarrow> (False, r)
      | c # cs \<Rightarrow>
          if c = CHR ''-'' then (True, cs) else if c = CHR ''+'' then (False, cs) else (False, r))"

definition strip_0x :: "string \<Rightarrow> string" where
  "strip_0x r =
     (case r of
        z # x # h # _ \<Rightarrow>
          if z = CHR ''0'' \<and> (x = CHR ''x'' \<or> x = CHR ''X'') \<and> hex_digit h \<noteq> None
          then drop 2 r else r
      | _ \<Rightarrow> r)"

definition sscanf_llx :: "string \<Rightarrow> mem_addr_t option" where
  "sscanf_llx str =
     (case strip_sign (dropWhile isspace str) of
        (neg, r1) \<Rightarrow>
          (case strip_0x r1 of
             [] \<Rightarrow> None
           | c # cs \<Rightarrow>
               if hex_digit c = None then None
               else
                 (let n = hex_value 0 (c # cs)
                  in Some (if 2 ^ 64 \<le> n then - 1
                           else if neg then - word_of_nat n else word_of_nat n))))"

subsection \<open>main, after the options are read\<close>

text \<open>
  The result of the program: an exit status from \<^verbatim>\<open>exit\<close>, the three numbers handed to
  \<^verbatim>\<open>printSummary\<close> (hits, misses, evictions), or no defined behaviour.
  \<^verbatim>\<open>printUsage\<close> prints the usage text and ends in \<^verbatim>\<open>exit(0)\<close>, so the \<^verbatim>\<open>exit(1)\<close>
  that follows its call in the check of the arguments is never reached. \<open>trace_file\<close> is
  \<open>None\<close> for the null pointer, and \<open>fopen\<close> gives the strings read from a named file.
  Memory is taken to be available: \<^verbatim>\<open>malloc\<close> and \<^verbatim>\<open>free\<close> are not modelled, and
  neither is what the program prints before it exits.
\<close>

datatype outcome = Exited int | Summary int int int | Undefined

definition printUsage :: outcome where
  "printUsage = Exited 0"

definition main ::
  "(string \<Rightarrow> mem_addr_t option) \<Rightarrow> (string \<Rightarrow> string list option) \<Rightarrow> string
     \<Rightarrow> int \<Rightarrow> int \<Rightarrow> int \<Rightarrow> string option \<Rightarrow> outcome" where
  "main scan fopen buf0 s E b trace_file =
     (if s = 0 \<or> E = 0 \<or> b = 0 \<or> trace_file = None then printUsage
      else
        (case initCache s E of
           None \<Rightarrow> Undefined
         | Some st0 \<Rightarrow>
             (case replayTrace scan s b E buf0 (fopen (the trace_file)) st0 of
                None \<Rightarrow> Undefined
              | Some st \<Rightarrow> Summary (hit_count st) (miss_count st) (eviction_count st))))"

section \<open>Notions used in the statements and proofs\<close>

text \<open>
  The target set while the loop of \<^verbatim>\<open>updateLRU\<close> still has the lines from \<open>i\<close> on to
  visit, and the target set after the whole of \<^verbatim>\<open>updateLRU\<close>, in closed form.
\<close>

definition aged_set :: "int \<Rightarrow> nat \<Rightarrow> nat \<Rightarrow> cache_set_t \<Rightarrow> cache_set_t" where
  "aged_set E lineIndex i cs =
     map (\<lambda>j. if i \<le> j \<and> int j < E \<and> j \<noteq> lineIndex \<and> valid (cs ! j) \<noteq> 0
              then (cs ! j)\<lparr>lru_counter := incr_int (lru_counter (cs ! j))\<rparr> else cs ! j)
       [0..<length cs]"

definition touched_set :: "int \<Rightarrow> nat \<Rightarrow> cache_set_t \<Rightarrow> cache_set_t" where
  "touched_set E lineIndex cs =
     (aged_set E lineIndex 0 cs)[lineIndex := (cs ! lineIndex)\<lparr>lru_counter := 0\<rparr>]"

text \<open>A valid line that carries the tag \<open>t\<close>: what the scan counts as a hit.\<close>

definition holds_tag :: "mem_addr_t \<Rightarrow> cache_line \<Rightarrow> bool" where
  "holds_tag t l = (valid l \<noteq> 0 \<and> tag l = t)"

text \<open>
  The two ways the scan of \<^verbatim>\<open>accessData\<close> ends when it starts at line \<open>i\<close>: with a hit on a
  line that holds the tag, counted and passed to \<^verbatim>\<open>updateLRU\<close>, or at the end of the set
  with no such line and the state untouched.
\<close>

definition scan_post ::
  "int \<Rightarrow> nat \<Rightarrow> mem_addr_t \<Rightarrow> nat \<Rightarrow> int \<Rightarrow> sim \<Rightarrow> scan_vars \<Rightarrow> sim \<Rightarrow> bool" where
  "scan_post E setIndex t i h st v' st' =
     ((hit v' = 1 \<and>
       (\<exists>j. i \<le> j \<and> int j < E \<and> holds_tag t (cache st ! setIndex ! j) \<and>
            st' = st\<lparr>hit_count := incr_int (hit_count st),
                     cache := (cache st)[setIndex := touched_set E j (cache st ! setIndex)]\<rparr>))
      \<or> (hit v' = h \<and> st' = st \<and>
          (\<forall>j. i \<le> j \<and> int j < E \<longrightarrow> \<not> holds_tag t (cache st ! setIndex ! j))))"

text \<open>
  One iteration of the scan on a line that is not a hit, and the iterations over the
  lines from \<open>i\<close> up to \<open>n\<close>.
\<close>

definition scan_step :: "cache_set_t \<Rightarrow> scan_vars \<Rightarrow> nat \<Rightarrow> scan_vars" where
  "scan_step cs v i =
     (if valid (cs ! i) \<noteq> 0 then
        (if lru_counter (cs ! i) > max_lru v
         then v\<lparr>max_lru := lru_counter (cs ! i), lru_index := i\<rparr> else v)
      else if empty_index v = - 1 then v\<lparr>empty_index := int i\<rparr> else v)"

definition scan_range :: "cache_set_t \<Rightarrow> scan_vars \<Rightarrow> nat \<Rightarrow> nat \<Rightarrow> scan_vars" where
  "scan_range cs v i n = foldl (scan_step cs) v [i..<n]"

text \<open>
  Line \<open>j\<close> is the first, in index order, of the lines below \<open>n\<close> with the greatest recency
  counter.
\<close>

definition first_max :: "cache_set_t \<Rightarrow> nat \<Rightarrow> nat \<Rightarrow> bool" where
  "first_max cs n j =
     (j < n \<and> (\<forall>k. k < n \<longrightarrow> lru_counter (cs ! k) \<le> lru_counter (cs ! j)) \<and>
      (\<forall>k. k < j \<longrightarrow> lru_counter (cs ! k) < lru_counter (cs ! j)))"

text \<open>
  The configurations and caches on which every step of \<^verbatim>\<open>accessData\<close> is defined: \<open>s\<close> and
  \<open>b\<close> in the range of the shifts, at least one line per set, \<open>2 ^ s\<close> sets of \<open>E\<close> lines as
  \<^verbatim>\<open>initCache\<close> allocates them.
\<close>

definition geometry :: "int \<Rightarrow> int \<Rightarrow> int \<Rightarrow> cache_t \<Rightarrow> bool" where
  "geometry s b E c =
     (0 \<le> s \<and> s \<le> 30 \<and> 0 \<le> b \<and> s + b < 64 \<and> 0 < E \<and>
      int (length c) = 2 ^ nat s \<and> (\<forall>cs \<in> set c. int (length cs) = E))"

text \<open>The set index and the tag that the decoding yields on such a configuration.\<close>

definition set_of :: "int \<Rightarrow> int \<Rightarrow> mem_addr_t \<Rightarrow> nat" where
  "set_of s b a = nat (uint (drop_bit (nat b) a) mod 2 ^ nat s)"

definition tag_of :: "int \<Rightarrow> int \<Rightarrow> mem_addr_t \<Rightarrow> mem_addr_t" where
  "tag_of s b a = drop_bit (nat (s + b)) a"

text \<open>
  What one call of \<^verbatim>\<open>accessData\<close> on address \<open>a\<close> does to a state: the shape of the cache
  and all other sets stay, the target set ends up holding the tag, and the statistics
  record a hit (the tag was held) or a miss with at most one eviction (it was not).
\<close>

definition access_step :: "int \<Rightarrow> int \<Rightarrow> int \<Rightarrow> mem_addr_t \<Rightarrow> sim \<Rightarrow> sim \<Rightarrow> bool" where
  "access_step s b E a st st' =
     (geometry s b E (cache st') \<and>
      length (cache st') = length (cache st) \<and>
      (\<forall>k. k \<noteq> set_of s b a \<longrightarrow> cache st' ! k = cache st ! k) \<and>
      (\<exists>j. int j < E \<and> holds_tag (tag_of s b a) (cache st' ! set_of s b a ! j)) \<and>
      ((hit_count st' = incr_int (hit_count st) \<and> miss_count st' = miss_count st \<and>
        eviction_count st' = eviction_count st \<and>
        (\<exists>j. int j < E \<and> holds_tag (tag_of s b a) (cache st ! set_of s b a ! j)))
       \<or> (hit_count st' = hit_count st \<and> miss_count st' = incr_int (miss_count st) \<and>
           (eviction_count st' = eviction_count st \<or> eviction_count st' = incr_int (eviction_count st)) \<and>
           (\<forall>j. int j < E \<longrightarrow> \<not> holds_tag (tag_of s b a) (cache st ! set_of s b a ! j)))))"

text \<open>
  The growth of a counter from one state to the next, an increment that wraps around
  counting as 1 like any other, and the growth of hits, misses and evictions.
\<close>

definition counter_growth :: "int \<Rightarrow> int \<Rightarrow> int" where
  "counter_growth x y = (if y = incr_int x then 1 else y - x)"

definition counters_delta :: "sim \<Rightarrow> sim \<Rightarrow> int \<times> int \<times> int" where
  "counters_delta st st' =
     (counter_growth (hit_count st) (hit_count st'),
      counter_growth (miss_count st) (miss_count st'),
      counter_growth (eviction_count st) (eviction_count st'))"

text \<open>The line buffer of \<^verbatim>\<open>replayTrace\<close> filled with zero bytes, for the examples.\<close>

definition zero_buf :: string where
  "zero_buf = replicate 1000 (CHR 0x00)"



text \<open>No two valid lines of a set carry the same tag; no set of the cache has two such lines.\<close>

definition distinct_tags :: "cache_set_t \<Rightarrow> bool" where
  "distinct_tags cs =
     (\<forall>i j. i < length cs \<and> j < length cs \<and> i \<noteq> j \<and> valid (cs ! i) \<noteq> 0 \<and> valid (cs ! j) \<noteq> 0
        \<longrightarrow> tag (cs ! i) \<noteq> tag (cs ! j))"

definition no_shared_tag :: "cache_t \<Rightarrow> bool" where
  "no_shared_tag c = (\<forall>cs \<in> set c. distinct_tags cs)"

text \<open>A sequence of calls of \<^verbatim>\<open>accessData\<close>, one after the other.\<close>

fun access_all :: "int \<Rightarrow> int \<Rightarrow> int \<Rightarrow> sim \<Rightarrow> mem_addr_t list \<Rightarrow> sim option" where
  "access_all s b E st [] = Some st"
| "access_all s b E st (a # rest) =
     (case accessData s b E st a of None \<Rightarrow> None | Some st' \<Rightarrow> access_all s b E st' rest)"

text \<open>A cache of one set whose two lines are valid and tied on the recency counter.\<close>

definition tied_sim :: sim where
  "tied_sim =
     \<lparr>cache = [[\<lparr>valid = 1, tag = 5, lru_counter = 3\<rparr>, \<lparr>valid = 1, tag = 7, lru_counter = 3\<rparr>]],
      miss_count = 0, hit_count = 0, eviction_count = 0\<rparr>"

text \<open>The character that the replay loop reads at \<^verbatim>\<open>buf[1]\<close> after \<^verbatim>\<open>fgets\<close> has stored a
  non-empty string: its second character, or the terminating zero.\<close>

definition record_op :: "string \<Rightarrow> char" where
  "record_op line = buf_at (line @ [CHR 0x00]) 1"

text \<open>
  The accounting in the words of the specification: a record is a Load or Store record
  (one access) or a Modify record (two accesses) when its operation character says so and
  its address parses; Instruction records, unrecognised records and malformed records
  count zero.
\<close>

definition spec_access_count :: "(string \<Rightarrow> mem_addr_t option) \<Rightarrow> string list \<Rightarrow> int" where
  "spec_access_count scan lines =
     int (length (filter (\<lambda>line. (record_op line = CHR ''L'' \<or> record_op line = CHR ''S'') \<and>
                            scan (c_string_from 3 (line @ [CHR 0x00])) \<noteq> None) lines)) +
     2 * int (length (filter (\<lambda>line. record_op line = CHR ''M'' \<and>
                            scan (c_string_from 3 (line @ [CHR 0x00])) \<noteq> None) lines))"

text \<open>
  The number of calls of \<^verbatim>\<open>accessData\<close> that the replay makes for a trace: one for each
  record whose operation character is \<^verbatim>\<open>L\<close> or \<^verbatim>\<open>S\<close>, two for each whose operation
  character is \<^verbatim>\<open>M\<close>.
\<close>

definition access_count :: "string list \<Rightarrow> int" where
  "access_count lines =
     int (length (filter (\<lambda>line. record_op line = CHR ''L'' \<or> record_op line = CHR ''S'') lines)) +
     2 * int (length (filter (\<lambda>line. record_op line = CHR ''M'') lines))"

text \<open>
  The state in which address 0 has been loaded once into a cache of two sets of one line
  (\<open>s = 1\<close>, \<open>b = 1\<close>, \<open>E = 1\<close>) and has then been hit until the hit counter is \<open>h\<close>.
\<close>

definition hot_sim :: "int \<Rightarrow> sim" where
  "hot_sim h =
     \<lparr>cache = [[\<lparr>valid = 1, tag = 0, lru_counter = 0\<rparr>], [empty_line]],
      miss_count = 1, hit_count = h, eviction_count = 0\<rparr>"

text \<open>The three statistics, in the order \<^verbatim>\<open>printSummary\<close> takes them.\<close>

definition counters :: "sim \<Rightarrow> int \<times> int \<times> int" where
  "counters st = (hit_count st, miss_count st, eviction_count st)"

section \<open>Properties\<close>

subsection \<open>updateLRU in closed form\<close>

declare updateLRU_loop.simps [simp del]
declare accessData_loop.simps [simp del]

lemma length_aged_set [simp]: "length (aged_set E li i cs) = length cs"
  by (simp add: aged_set_def)

lemma nth_aged_set:
  "j < length cs \<Longrightarrow> aged_set E li i cs ! j =
     (if i \<le> j \<and> int j < E \<and> j \<noteq> li \<and> valid (cs ! j) \<noteq> 0
      then (cs ! j)\<lparr>lru_counter := incr_int (lru_counter (cs ! j))\<rparr> else cs ! j)"
  by (simp add: aged_set_def)

lemma aged_set_step:
  assumes "i < length cs" "int i < E" "i \<noteq> li" "valid (cs ! i) \<noteq> 0"
  shows "aged_set E li (Suc i) (cs[i := (cs ! i)\<lparr>lru_counter := incr_int (lru_counter (cs ! i))\<rparr>])
         = aged_set E li i cs"
  using assms by (intro nth_equalityI) (auto simp: nth_aged_set nth_list_update)

lemma aged_set_skip:
  assumes "i = li \<or> valid (cs ! i) = 0"
  shows "aged_set E li (Suc i) cs = aged_set E li i cs"
proof (rule nth_equalityI)
  show "length (aged_set E li (Suc i) cs) = length (aged_set E li i cs)" by simp
next
  fix j assume "j < length (aged_set E li (Suc i) cs)"
  then have j: "j < length cs" by simp
  show "aged_set E li (Suc i) cs ! j = aged_set E li i cs ! j"
    using assms j by (cases "j = i") (auto simp: nth_aged_set)
qed

lemma updateLRU_loop_eq:
  "setIndex < length c \<Longrightarrow> E \<le> int (length (c ! setIndex)) \<Longrightarrow>
   updateLRU_loop E c setIndex lineIndex i =
     Some (c[setIndex := aged_set E lineIndex i (c ! setIndex)])"
proof (induction E c setIndex lineIndex i rule: updateLRU_loop.induct)
  case (1 E c setIndex lineIndex i)
  show ?case
  proof (cases "int i < E")
    case False
    have "aged_set E lineIndex i (c ! setIndex) = c ! setIndex"
      using False by (intro nth_equalityI) (auto simp: nth_aged_set)
    then show ?thesis
      using False by (subst updateLRU_loop.simps) simp
  next
    case True
    then have il: "i < length (c ! setIndex)" using "1.prems" by linarith
    then have la: "line_at c setIndex i = Some (c ! setIndex ! i)"
      using "1.prems" by (simp add: line_at_def)
    show ?thesis
    proof (cases "i \<noteq> lineIndex \<and> valid (c ! setIndex ! i) \<noteq> 0")
      case bump: True
      let ?l = "(c ! setIndex ! i)\<lparr>lru_counter := incr_int (lru_counter (c ! setIndex ! i))\<rparr>"
      let ?c1 = "set_line c setIndex i ?l"
      have c1: "?c1 ! setIndex = (c ! setIndex)[i := ?l]" "length ?c1 = length c"
        using "1.prems" by (simp_all add: set_line_def)
      have "updateLRU_loop E ?c1 setIndex lineIndex (i + 1) =
              Some (?c1[setIndex := aged_set E lineIndex (i + 1) (?c1 ! setIndex)])"
        using "1.IH"(1) [OF True la] bump "1.prems" c1 by simp
      also have "?c1[setIndex := aged_set E lineIndex (i + 1) (?c1 ! setIndex)] =
                   c[setIndex := aged_set E lineIndex i (c ! setIndex)]"
        using aged_set_step [OF il True, of lineIndex] bump "1.prems"(1)
        by (simp add: set_line_def)
      finally show ?thesis
        using True la bump by (subst updateLRU_loop.simps) simp
    next
      case skip: False
      have "updateLRU_loop E c setIndex lineIndex (i + 1) =
              Some (c[setIndex := aged_set E lineIndex (i + 1) (c ! setIndex)])"
        using "1.IH"(2) [OF True la] skip "1.prems" by simp
      moreover have "aged_set E lineIndex (Suc i) (c ! setIndex) = aged_set E lineIndex i (c ! setIndex)"
        using skip by (intro aged_set_skip) auto
      ultimately show ?thesis
        using True la skip by (subst updateLRU_loop.simps) auto
    qed
  qed
qed

lemma updateLRU_eq:
  assumes "setIndex < length c" "E \<le> int (length (c ! setIndex))"
    "lineIndex < length (c ! setIndex)"
  shows "updateLRU E c setIndex lineIndex =
           Some (c[setIndex := touched_set E lineIndex (c ! setIndex)])"
  using assms
  by (simp add: updateLRU_def updateLRU_loop_eq line_at_def set_line_def touched_set_def
      nth_aged_set)

lemma length_touched_set [simp]: "length (touched_set E li cs) = length cs"
  by (simp add: touched_set_def)

lemma nth_touched_set:
  "j < length cs \<Longrightarrow> touched_set E li cs ! j =
     (if j = li then (cs ! j)\<lparr>lru_counter := 0\<rparr>
      else if int j < E \<and> valid (cs ! j) \<noteq> 0
      then (cs ! j)\<lparr>lru_counter := incr_int (lru_counter (cs ! j))\<rparr> else cs ! j)"
  by (auto simp: touched_set_def nth_list_update nth_aged_set)

lemma valid_touched_set [simp]:
  "j < length cs \<Longrightarrow> valid (touched_set E li cs ! j) = valid (cs ! j)"
  by (simp add: nth_touched_set)

lemma tag_touched_set [simp]:
  "j < length cs \<Longrightarrow> tag (touched_set E li cs ! j) = tag (cs ! j)"
  by (simp add: nth_touched_set)

subsection \<open>The scan of accessData\<close>

lemma scan_post_step:
  assumes "scan_post E setIndex t (Suc i) h st v' st'"
    and "\<not> holds_tag t (cache st ! setIndex ! i)"
  shows "scan_post E setIndex t i h st v' st'"
proof -
  have split: "\<And>j. i \<le> j \<longleftrightarrow> j = i \<or> Suc i \<le> j" by auto
  from assms(1) show ?thesis
    unfolding scan_post_def
  proof (elim disjE conjE exE)
    fix j
    assume "hit v' = 1" "Suc i \<le> j" "int j < E" "holds_tag t (cache st ! setIndex ! j)"
      "st' = st\<lparr>hit_count := incr_int (hit_count st),
                     cache := (cache st)[setIndex := touched_set E j (cache st ! setIndex)]\<rparr>"
    moreover from \<open>Suc i \<le> j\<close> have "i \<le> j" by simp
    ultimately show "(hit v' = 1 \<and>
       (\<exists>j. i \<le> j \<and> int j < E \<and> holds_tag t (cache st ! setIndex ! j) \<and>
            st' = st\<lparr>hit_count := incr_int (hit_count st),
                     cache := (cache st)[setIndex := touched_set E j (cache st ! setIndex)]\<rparr>))
      \<or> (hit v' = h \<and> st' = st \<and>
          (\<forall>j. i \<le> j \<and> int j < E \<longrightarrow> \<not> holds_tag t (cache st ! setIndex ! j)))"
      by blast
  next
    assume a: "hit v' = h" "st' = st"
      "\<forall>j. Suc i \<le> j \<and> int j < E \<longrightarrow> \<not> holds_tag t (cache st ! setIndex ! j)"
    have "\<forall>j. i \<le> j \<and> int j < E \<longrightarrow> \<not> holds_tag t (cache st ! setIndex ! j)"
    proof (intro allI impI)
      fix j assume "i \<le> j \<and> int j < E"
      then consider "j = i" | "Suc i \<le> j \<and> int j < E" by (auto simp: split)
      then show "\<not> holds_tag t (cache st ! setIndex ! j)"
        using a(3) assms(2) by cases auto
    qed
    with a show "(hit v' = 1 \<and>
       (\<exists>j. i \<le> j \<and> int j < E \<and> holds_tag t (cache st ! setIndex ! j) \<and>
            st' = st\<lparr>hit_count := incr_int (hit_count st),
                     cache := (cache st)[setIndex := touched_set E j (cache st ! setIndex)]\<rparr>))
      \<or> (hit v' = h \<and> st' = st \<and>
          (\<forall>j. i \<le> j \<and> int j < E \<longrightarrow> \<not> holds_tag t (cache st ! setIndex ! j)))"
      by blast
  qed
qed

lemma accessData_loop_result:
  assumes "setIndex < length (cache st)" "E \<le> int (length (cache st ! setIndex))"
  shows "\<exists>v' st'. accessData_loop E setIndex t i v st = Some (v', st') \<and>
           scan_post E setIndex t i (hit v) st v' st'"
  using assms
proof (induction E setIndex t i v st rule: accessData_loop.induct)
  case (1 E setIndex t i v st)
  let ?cs = "cache st ! setIndex"
  show ?case
  proof (cases "int i < E")
    case False
    then have "\<forall>j. i \<le> j \<and> int j < E \<longrightarrow> \<not> holds_tag t (cache st ! setIndex ! j)"
      by auto
    then have "scan_post E setIndex t i (hit v) st v st"
      by (simp add: scan_post_def)
    then show ?thesis using False by (subst accessData_loop.simps) simp
  next
    case True
    then have il: "i < length ?cs" using "1.prems" by linarith
    then have la: "line_at (cache st) setIndex i = Some (?cs ! i)"
      using "1.prems" by (simp add: line_at_def)
    show ?thesis
    proof (cases "holds_tag t (?cs ! i)")
      case h: True
      have "updateLRU E (cache st) setIndex i =
              Some ((cache st)[setIndex := touched_set E i ?cs])"
        using "1.prems" il by (rule updateLRU_eq)
      moreover have "scan_post E setIndex t i (hit v) st (v\<lparr>hit := 1\<rparr>)
          (st\<lparr>hit_count := incr_int (hit_count st),
              cache := (cache st)[setIndex := touched_set E i ?cs]\<rparr>)"
        unfolding scan_post_def using True h by auto
      ultimately show ?thesis
        using True la h by (subst accessData_loop.simps) (simp add: holds_tag_def)
    next
      case nh: False
      consider (a) "valid (?cs ! i) \<noteq> 0" "tag (?cs ! i) \<noteq> t" "lru_counter (?cs ! i) > max_lru v"
        | (b) "valid (?cs ! i) \<noteq> 0" "tag (?cs ! i) \<noteq> t" "\<not> lru_counter (?cs ! i) > max_lru v"
        | (c) "\<not> valid (?cs ! i) \<noteq> 0" "empty_index v = - 1"
        | (d) "\<not> valid (?cs ! i) \<noteq> 0" "empty_index v \<noteq> - 1"
        using nh by (auto simp: holds_tag_def)
      then show ?thesis
      proof cases
        case a
        from "1.IH"(1) [OF True la a(1) a(2) a(3) "1.prems"]
        obtain v' st' where r: "accessData_loop E setIndex t (i + 1)
            (v\<lparr>max_lru := lru_counter (?cs ! i), lru_index := i\<rparr>) st = Some (v', st')"
          and p: "scan_post E setIndex t (i + 1) (hit v) st v' st'" by auto
        from p nh have "scan_post E setIndex t i (hit v) st v' st'"
          by (simp add: scan_post_step)
        moreover have "accessData_loop E setIndex t i v st = Some (v', st')"
          using True la a r by (subst accessData_loop.simps) simp
        ultimately show ?thesis by blast
      next
        case b
        from "1.IH"(2) [OF True la b(1) b(2) b(3) "1.prems"]
        obtain v' st' where r: "accessData_loop E setIndex t (i + 1) v st = Some (v', st')"
          and p: "scan_post E setIndex t (i + 1) (hit v) st v' st'" by auto
        from p nh have "scan_post E setIndex t i (hit v) st v' st'"
          by (simp add: scan_post_step)
        moreover have "accessData_loop E setIndex t i v st = Some (v', st')"
          using True la b r by (subst accessData_loop.simps) simp
        ultimately show ?thesis by blast
      next
        case c
        from "1.IH"(3) [OF True la c(1) c(2) "1.prems"]
        obtain v' st' where r: "accessData_loop E setIndex t (i + 1)
            (v\<lparr>empty_index := int i\<rparr>) st = Some (v', st')"
          and p: "scan_post E setIndex t (i + 1) (hit v) st v' st'" by auto
        from p nh have "scan_post E setIndex t i (hit v) st v' st'"
          by (simp add: scan_post_step)
        moreover have "accessData_loop E setIndex t i v st = Some (v', st')"
          using True la c r by (subst accessData_loop.simps) simp
        ultimately show ?thesis by blast
      next
        case d
        from "1.IH"(4) [OF True la d(1) d(2) "1.prems"]
        obtain v' st' where r: "accessData_loop E setIndex t (i + 1) v st = Some (v', st')"
          and p: "scan_post E setIndex t (i + 1) (hit v) st v' st'" by auto
        from p nh have "scan_post E setIndex t i (hit v) st v' st'"
          by (simp add: scan_post_step)
        moreover have "accessData_loop E setIndex t i v st = Some (v', st')"
          using True la d r by (subst accessData_loop.simps) simp
        ultimately show ?thesis by blast
      qed
    qed
  qed
qed

lemma scan_range_empty [simp]: "n \<le> i \<Longrightarrow> scan_range cs v i n = v"
  by (simp add: scan_range_def)

lemma scan_range_first: "i < n \<Longrightarrow> scan_range cs v i n = scan_range cs (scan_step cs v i) (Suc i) n"
  by (simp add: scan_range_def upt_conv_Cons)

lemma scan_range_last: "i \<le> n \<Longrightarrow> scan_range cs v i (Suc n) = scan_step cs (scan_range cs v i n) n"
  by (simp add: scan_range_def)

lemma accessData_loop_miss:
  assumes "setIndex < length (cache st)" "E \<le> int (length (cache st ! setIndex))"
    and "\<forall>j. i \<le> j \<and> int j < E \<longrightarrow> \<not> holds_tag t (cache st ! setIndex ! j)"
  shows "accessData_loop E setIndex t i v st =
           Some (scan_range (cache st ! setIndex) v i (nat E), st)"
  using assms
proof (induction E setIndex t i v st rule: accessData_loop.induct)
  case (1 E setIndex t i v st)
  let ?cs = "cache st ! setIndex"
  show ?case
  proof (cases "int i < E")
    case False
    then have "nat E \<le> i" by linarith
    then show ?thesis using False by (subst accessData_loop.simps) simp
  next
    case True
    then have il: "i < length ?cs" using "1.prems" by linarith
    then have la: "line_at (cache st) setIndex i = Some (?cs ! i)"
      using "1.prems" by (simp add: line_at_def)
    have nh: "\<not> holds_tag t (?cs ! i)" using "1.prems"(3) True by simp
    have rest: "\<forall>j. i + 1 \<le> j \<and> int j < E \<longrightarrow> \<not> holds_tag t (?cs ! j)"
      using "1.prems"(3) by simp
    have unfold: "accessData_loop E setIndex t i v st =
        accessData_loop E setIndex t (i + 1) (scan_step ?cs v i) st"
      using True la nh
      by (subst accessData_loop.simps) (auto simp: scan_step_def holds_tag_def)
    have "accessData_loop E setIndex t (i + 1) (scan_step ?cs v i) st =
            Some (scan_range ?cs (scan_step ?cs v i) (i + 1) (nat E), st)"
    proof -
      consider (a) "valid (?cs ! i) \<noteq> 0" "tag (?cs ! i) \<noteq> t" "lru_counter (?cs ! i) > max_lru v"
        | (b) "valid (?cs ! i) \<noteq> 0" "tag (?cs ! i) \<noteq> t" "\<not> lru_counter (?cs ! i) > max_lru v"
        | (c) "\<not> valid (?cs ! i) \<noteq> 0" "empty_index v = - 1"
        | (d) "\<not> valid (?cs ! i) \<noteq> 0" "empty_index v \<noteq> - 1"
        using nh by (auto simp: holds_tag_def)
      then show ?thesis
      proof cases
        case a
        from "1.IH"(1) [OF True la a(1) a(2) a(3) "1.prems"(1,2) rest] a
        show ?thesis by (simp add: scan_step_def)
      next
        case b
        from "1.IH"(2) [OF True la b(1) b(2) b(3) "1.prems"(1,2) rest] b
        show ?thesis by (simp add: scan_step_def)
      next
        case c
        from "1.IH"(3) [OF True la c(1) c(2) "1.prems"(1,2) rest] c
        show ?thesis by (simp add: scan_step_def)
      next
        case d
        from "1.IH"(4) [OF True la d(1) d(2) "1.prems"(1,2) rest] d
        show ?thesis by (simp add: scan_step_def)
      qed
    qed
    moreover have "scan_range ?cs v i (nat E) = scan_range ?cs (scan_step ?cs v i) (i + 1) (nat E)"
      using True by (simp add: scan_range_first)
    ultimately show ?thesis using unfold by simp
  qed
qed

lemma hit_scan_step [simp]: "hit (scan_step cs v i) = hit v"
  by (simp add: scan_step_def)

lemma hit_foldl_scan_step: "hit (foldl (scan_step cs) v xs) = hit v"
  by (induction xs arbitrary: v) simp_all

lemma hit_scan_range [simp]: "hit (scan_range cs v i n) = hit v"
  by (simp add: scan_range_def hit_foldl_scan_step)

lemma empty_index_scan_range:
  assumes "empty_index v = - 1 \<or> (0 \<le> empty_index v \<and> empty_index v < int n)"
  shows "empty_index (scan_range cs v i n) = - 1 \<or>
         (0 \<le> empty_index (scan_range cs v i n) \<and> empty_index (scan_range cs v i n) < int n)"
  using assms
proof (induction n)
  case 0
  then show ?case by simp
next
  case (Suc n)
  show ?case
  proof (cases "i \<le> n")
    case True
    show ?thesis
    proof (cases "empty_index v = - 1 \<or> (0 \<le> empty_index v \<and> empty_index v < int n)")
      case ok: True
      from Suc.IH [OF ok] show ?thesis
        using True by (auto simp: scan_range_last scan_step_def)
    next
      case False
      with Suc.prems have e: "empty_index v = int n" by auto
      have "empty_index (foldl (scan_step cs) v xs) = int n" for xs
        using e by (induction xs arbitrary: v) (auto simp: scan_step_def)
      then show ?thesis by (simp add: scan_range_def)
    qed
  next
    case False
    then show ?thesis using Suc.prems by simp
  qed
qed

lemma lru_index_scan_range:
  "lru_index (scan_range cs v i n) = lru_index v \<or> lru_index (scan_range cs v i n) < n"
proof (induction n)
  case 0
  then show ?case by simp
next
  case (Suc n)
  show ?case
  proof (cases "i \<le> n")
    case True
    with Suc.IH show ?thesis by (auto simp: scan_range_last scan_step_def)
  next
    case False
    then show ?thesis by simp
  qed
qed

lemma empty_index_scan_range_full:
  assumes "\<forall>j. i \<le> j \<and> j < n \<longrightarrow> valid (cs ! j) \<noteq> 0"
  shows "empty_index (scan_range cs v i n) = empty_index v"
  using assms
proof (induction n)
  case 0
  then show ?case by simp
next
  case (Suc n)
  show ?case
  proof (cases "i \<le> n")
    case True
    with Suc show ?thesis by (simp add: scan_range_last scan_step_def)
  next
    case False
    then show ?thesis by simp
  qed
qed

lemma lru_index_scan_range_full:
  assumes "\<forall>j. j < n \<longrightarrow> valid (cs ! j) \<noteq> 0 \<and> 0 \<le> lru_counter (cs ! j)"
  shows "(n = 0 \<and> lru_index (scan_range cs scan_init 0 n) = 0 \<and> max_lru (scan_range cs scan_init 0 n) = - 1)
       \<or> (first_max cs n (lru_index (scan_range cs scan_init 0 n)) \<and>
          max_lru (scan_range cs scan_init 0 n) = lru_counter (cs ! lru_index (scan_range cs scan_init 0 n)))"
  using assms
proof (induction n)
  case 0
  then show ?case by (simp add: scan_init_def)
next
  case (Suc n)
  let ?r = "scan_range cs scan_init 0 n"
  have v: "valid (cs ! n) \<noteq> 0" and nn: "0 \<le> lru_counter (cs ! n)" using Suc.prems by auto
  from Suc have IH: "(n = 0 \<and> lru_index ?r = 0 \<and> max_lru ?r = - 1)
       \<or> (first_max cs n (lru_index ?r) \<and> max_lru ?r = lru_counter (cs ! lru_index ?r))"
    by simp
  show ?case
  proof (cases "lru_counter (cs ! n) > max_lru ?r")
    case True
    then have r: "scan_range cs scan_init 0 (Suc n) = ?r\<lparr>max_lru := lru_counter (cs ! n), lru_index := n\<rparr>"
      using v by (simp add: scan_range_last scan_step_def)
    have "first_max cs (Suc n) n"
      unfolding first_max_def
    proof (intro conjI allI impI)
      show "n < Suc n" by simp
    next
      fix k assume "k < Suc n"
      then consider "k = n" | "k < n" by linarith
      then show "lru_counter (cs ! k) \<le> lru_counter (cs ! n)"
      proof cases
        case 1 then show ?thesis by simp
      next
        case 2
        with IH True show ?thesis by (auto simp: first_max_def)
      qed
    next
      fix k assume "k < n"
      with IH True show "lru_counter (cs ! k) < lru_counter (cs ! n)"
        by (auto simp: first_max_def)
    qed
    then show ?thesis by (simp add: r)
  next
    case False
    then have r: "scan_range cs scan_init 0 (Suc n) = ?r"
      using v by (simp add: scan_range_last scan_step_def)
    from False nn IH have fm: "first_max cs n (lru_index ?r)" "max_lru ?r = lru_counter (cs ! lru_index ?r)"
      by auto
    have "first_max cs (Suc n) (lru_index ?r)"
      using fm False unfolding first_max_def by (auto simp: less_Suc_eq)
    then show ?thesis using fm by (simp add: r)
  qed
qed

subsection \<open>The decoding of the address\<close>

lemma shl_int_one: "0 \<le> s \<Longrightarrow> s \<le> 30 \<Longrightarrow> shl_int 1 s = Some (2 ^ nat s)"
proof -
  assume a: "0 \<le> s" "s \<le> 30"
  then have "nat s \<le> 30" by simp
  then have "(2::int) ^ nat s \<le> 2 ^ 30" by (rule power_increasing) simp
  with a show ?thesis by (simp add: shl_int_def)
qed

lemma word_of_int_mask: "(word_of_int (mask n) :: 64 word) = mask n"
  by (simp add: of_int_mask_eq)

lemma sint_ucast_and_mask:
  fixes w :: "64 word"
  assumes "n \<le> 30"
  shows "sint (ucast (w AND mask n) :: 32 word) = uint w mod 2 ^ n"
proof -
  have lt: "take_bit n (uint w) < 2 ^ 30"
  proof -
    have "take_bit n (uint w) < 2 ^ n" by simp
    also have "(2::int) ^ n \<le> 2 ^ 30" using assms by (rule power_increasing) simp
    finally show ?thesis .
  qed
  have u: "uint (w AND mask n) = take_bit n (uint w)"
    by (simp add: unsigned_take_bit_eq flip: take_bit_eq_mask)
  have "uint (ucast (w AND mask n) :: 32 word) = take_bit 32 (take_bit n (uint w))"
    by (simp only: unsigned_ucast_eq u) simp
  also have "\<dots> = take_bit n (uint w)"
    using assms by (simp add: min_def)
  finally have v: "uint (ucast (w AND mask n) :: 32 word) = take_bit n (uint w)" .
  have "sint (ucast (w AND mask n) :: 32 word) = signed_take_bit 31 (take_bit n (uint w))"
    by (simp only: sint_uint v) simp
  also have "\<dots> = take_bit n (uint w)"
  proof (rule signed_take_bit_int_eq_self)
    have "- (2 ^ 31) \<le> (0::int)" by simp
    also have "0 \<le> take_bit n (uint w)" by simp
    finally show "- (2 ^ 31) \<le> take_bit n (uint w)" .
    show "take_bit n (uint w) < 2 ^ 31" using lt by simp
  qed
  finally show ?thesis by (simp add: take_bit_eq_mod)
qed

lemma decode_eq:
  assumes "0 \<le> s" "s \<le> 30" "0 \<le> b" "s + b < 64"
  shows "accessData_decode s b a =
    Some (drop_bit (nat (s + b)) a, uint (drop_bit (nat b) a) mod 2 ^ nat s)"
proof -
  have n: "nat s \<le> 30" using assms by simp
  show ?thesis
    using assms
    by (simp add: accessData_decode_def shr_addr_def shl_int_one word_of_int_mask
        sint_ucast_and_mask [OF n] flip: mask_eq_exp_minus_1)
qed

lemma geometry_decode:
  assumes "geometry s b E c"
  shows "accessData_decode s b a = Some (tag_of s b a, int (set_of s b a))"
    and "set_of s b a < length c"
    and "int (length (c ! set_of s b a)) = E"
proof -
  let ?m = "uint (drop_bit (nat b) a) mod 2 ^ nat s"
  have m: "0 \<le> ?m" "?m < 2 ^ nat s" by simp_all
  from assms show "accessData_decode s b a = Some (tag_of s b a, int (set_of s b a))"
    using m by (simp add: geometry_def decode_eq set_of_def tag_of_def)
  from assms have "int (length c) = 2 ^ nat s" by (simp add: geometry_def)
  with m show l: "set_of s b a < length c"
    unfolding set_of_def by linarith
  from assms l show "int (length (c ! set_of s b a)) = E"
    by (simp add: geometry_def)
qed

subsection \<open>One call of accessData\<close>

lemma accessData_unfold:
  assumes "geometry s b E (cache st)"
  shows "accessData s b E st a =
     (case accessData_loop E (set_of s b a) (tag_of s b a) 0 scan_init st of
        None \<Rightarrow> None
      | Some (v, st') \<Rightarrow> accessData_place E (set_of s b a) (tag_of s b a) v st')"
  using geometry_decode(1) [OF assms, of a] by (simp add: accessData_def split: option.split)

lemma accessData_hit_eq:
  assumes g: "geometry s b E (cache st)"
    and h: "\<exists>j. int j < E \<and> holds_tag (tag_of s b a) (cache st ! set_of s b a ! j)"
  shows "\<exists>j. int j < E \<and> holds_tag (tag_of s b a) (cache st ! set_of s b a ! j) \<and>
     accessData s b E st a =
       Some (st\<lparr>hit_count := incr_int (hit_count st),
                cache := (cache st)[set_of s b a :=
                           touched_set E j (cache st ! set_of s b a)]\<rparr>)"
proof -
  let ?k = "set_of s b a" and ?t = "tag_of s b a"
  note d = geometry_decode [OF g, of a]
  from d have le: "E \<le> int (length (cache st ! ?k))" by simp
  from accessData_loop_result [OF d(2) le, of ?t 0 scan_init]
  obtain v' st' where r: "accessData_loop E ?k ?t 0 scan_init st = Some (v', st')"
    and p: "scan_post E ?k ?t 0 (hit scan_init) st v' st'" by blast
  from p h obtain j where j: "hit v' = 1" "int j < E" "holds_tag ?t (cache st ! ?k ! j)"
    "st' = st\<lparr>hit_count := incr_int (hit_count st),
              cache := (cache st)[?k := touched_set E j (cache st ! ?k)]\<rparr>"
    unfolding scan_post_def by auto
  have "accessData s b E st a = Some st'"
    using r j(1) by (simp add: accessData_unfold [OF g] accessData_place_def)
  with j show ?thesis by blast
qed

lemma accessData_miss_eq:
  assumes g: "geometry s b E (cache st)"
    and nh: "\<forall>j. int j < E \<longrightarrow> \<not> holds_tag (tag_of s b a) (cache st ! set_of s b a ! j)"
  defines "cs \<equiv> cache st ! set_of s b a"
  defines "v \<equiv> scan_range cs scan_init 0 (nat E)"
  shows "accessData s b E st a =
     (if empty_index v \<noteq> - 1 then
        Some (st\<lparr>miss_count := incr_int (miss_count st),
                 cache := (cache st)[set_of s b a :=
                    touched_set E (nat (empty_index v))
                      (cs[nat (empty_index v) :=
                            (cs ! nat (empty_index v))\<lparr>valid := 1, tag := tag_of s b a\<rparr>])]\<rparr>)
      else
        Some (st\<lparr>miss_count := incr_int (miss_count st), eviction_count := incr_int (eviction_count st),
                 cache := (cache st)[set_of s b a :=
                    touched_set E (lru_index v)
                      (cs[lru_index v := (cs ! lru_index v)\<lparr>tag := tag_of s b a\<rparr>])]\<rparr>))"
    and "empty_index v \<noteq> - 1 \<Longrightarrow> 0 \<le> empty_index v \<and> empty_index v < E"
    and "int (lru_index v) < E"
proof -
  let ?k = "set_of s b a" and ?t = "tag_of s b a"
  note d = geometry_decode [OF g, of a]
  from d have le: "E \<le> int (length (cache st ! ?k))" by simp
  from g have E: "0 < E" by (simp add: geometry_def)
  have len: "int (length cs) = E" using d by (simp add: cs_def)
  have r: "accessData_loop E ?k ?t 0 scan_init st = Some (v, st)"
    unfolding v_def cs_def using nh by (intro accessData_loop_miss [OF d(2) le]) simp
  have hv: "hit v = 0" by (simp add: v_def scan_init_def)
  have "empty_index v = - 1 \<or> (0 \<le> empty_index v \<and> empty_index v < int (nat E))"
    unfolding v_def by (rule empty_index_scan_range) (simp add: scan_init_def)
  then show eb: "empty_index v \<noteq> - 1 \<Longrightarrow> 0 \<le> empty_index v \<and> empty_index v < E"
    using E by auto
  have "lru_index v = lru_index scan_init \<or> lru_index v < nat E"
    unfolding v_def by (rule lru_index_scan_range)
  then show lb: "int (lru_index v) < E" using E by (auto simp: scan_init_def)
  show "accessData s b E st a =
     (if empty_index v \<noteq> - 1 then
        Some (st\<lparr>miss_count := incr_int (miss_count st),
                 cache := (cache st)[set_of s b a :=
                    touched_set E (nat (empty_index v))
                      (cs[nat (empty_index v) :=
                            (cs ! nat (empty_index v))\<lparr>valid := 1, tag := tag_of s b a\<rparr>])]\<rparr>)
      else
        Some (st\<lparr>miss_count := incr_int (miss_count st), eviction_count := incr_int (eviction_count st),
                 cache := (cache st)[set_of s b a :=
                    touched_set E (lru_index v)
                      (cs[lru_index v := (cs ! lru_index v)\<lparr>tag := tag_of s b a\<rparr>])]\<rparr>))"
  proof (cases "empty_index v \<noteq> - 1")
    case True
    let ?e = "nat (empty_index v)"
    from eb [OF True] len have e: "?e < length cs" by linarith
    let ?c1 = "set_line (cache st) ?k ?e ((cs ! ?e)\<lparr>valid := 1, tag := ?t\<rparr>)"
    have c1: "?c1 ! ?k = cs[?e := (cs ! ?e)\<lparr>valid := 1, tag := ?t\<rparr>]" "length ?c1 = length (cache st)"
      using d(2) by (simp_all add: set_line_def cs_def)
    have "updateLRU E ?c1 ?k ?e = Some (?c1[?k := touched_set E ?e (?c1 ! ?k)])"
      using d(2) len e by (intro updateLRU_eq) (simp_all add: c1)
    also have "?c1[?k := touched_set E ?e (?c1 ! ?k)] =
        (cache st)[?k := touched_set E ?e (cs[?e := (cs ! ?e)\<lparr>valid := 1, tag := ?t\<rparr>])]"
      by (simp add: c1) (simp add: set_line_def)
    finally have u: "updateLRU E ?c1 ?k ?e =
       Some ((cache st)[?k := touched_set E ?e (cs[?e := (cs ! ?e)\<lparr>valid := 1, tag := ?t\<rparr>])])" .
    have la: "line_at (cache st) ?k ?e = Some (cs ! ?e)"
      using d(2) e by (simp add: line_at_def cs_def)
    show ?thesis
      using True r hv la u
      by (simp add: accessData_unfold [OF g] accessData_place_def Let_def)
  next
    case False
    let ?j = "lru_index v"
    from lb len have j: "?j < length cs" by linarith
    let ?c1 = "set_line (cache st) ?k ?j ((cs ! ?j)\<lparr>tag := ?t\<rparr>)"
    have c1: "?c1 ! ?k = cs[?j := (cs ! ?j)\<lparr>tag := ?t\<rparr>]" "length ?c1 = length (cache st)"
      using d(2) by (simp_all add: set_line_def cs_def)
    have "updateLRU E ?c1 ?k ?j = Some (?c1[?k := touched_set E ?j (?c1 ! ?k)])"
      using d(2) len j by (intro updateLRU_eq) (simp_all add: c1)
    also have "?c1[?k := touched_set E ?j (?c1 ! ?k)] =
        (cache st)[?k := touched_set E ?j (cs[?j := (cs ! ?j)\<lparr>tag := ?t\<rparr>])]"
      by (simp add: c1) (simp add: set_line_def)
    finally have u: "updateLRU E ?c1 ?k ?j =
       Some ((cache st)[?k := touched_set E ?j (cs[?j := (cs ! ?j)\<lparr>tag := ?t\<rparr>])])" .
    have la: "line_at (cache st) ?k ?j = Some (cs ! ?j)"
      using d(2) j by (simp add: line_at_def cs_def)
    show ?thesis
      using False r hv la u
      by (simp add: accessData_unfold [OF g] accessData_place_def Let_def)
  qed
qed

lemma empty_index_scan_range_valid:
  assumes "empty_index (scan_range cs v i n) = - 1"
  shows "\<forall>j. i \<le> j \<and> j < n \<longrightarrow> valid (cs ! j) \<noteq> 0"
  using assms
proof (induction n)
  case 0
  then show ?case by simp
next
  case (Suc n)
  show ?case
  proof (cases "i \<le> n")
    case True
    let ?r = "scan_range cs v i n"
    from Suc.prems True have s: "empty_index (scan_step cs ?r n) = - 1"
      by (simp add: scan_range_last)
    then have vn: "valid (cs ! n) \<noteq> 0" and er: "empty_index ?r = - 1"
      by (simp_all add: scan_step_def split: if_splits)
    from Suc.IH [OF er]
    have ih: "\<forall>j. i \<le> j \<and> j < n \<longrightarrow> valid (cs ! j) \<noteq> 0" .
    show ?thesis
    proof (intro allI impI)
      fix j assume "i \<le> j \<and> j < Suc n"
      then consider "j = n" | "i \<le> j \<and> j < n" by linarith
      then show "valid (cs ! j) \<noteq> 0"
        using vn ih by cases simp_all
    qed
  next
    case False
    then show ?thesis by auto
  qed
qed

lemma empty_index_scan_range_invalid:
  assumes "empty_index v = - 1" "empty_index (scan_range cs v i n) \<noteq> - 1"
  shows "valid (cs ! nat (empty_index (scan_range cs v i n))) = 0"
  using assms
proof (induction n)
  case 0
  then show ?case by simp
next
  case (Suc n)
  show ?case
  proof (cases "i \<le> n")
    case True
    let ?r = "scan_range cs v i n"
    have step: "scan_range cs v i (Suc n) = scan_step cs ?r n"
      using True by (rule scan_range_last)
    show ?thesis
    proof (cases "empty_index ?r = - 1")
      case e: True
      with Suc.prems(2) have "valid (cs ! n) = 0" "empty_index (scan_step cs ?r n) = int n"
        unfolding step by (simp_all add: scan_step_def split: if_splits)
      then show ?thesis unfolding step by simp
    next
      case e: False
      then have "empty_index (scan_step cs ?r n) = empty_index ?r"
        by (simp add: scan_step_def)
      with Suc.IH [OF Suc.prems(1) e] show ?thesis unfolding step by simp
    qed
  next
    case False
    with Suc.prems show ?thesis by simp
  qed
qed

text \<open>The three ways an access ends.\<close>

lemma accessData_cases [consumes 1, case_names hit fill evict]:
  assumes g: "geometry s b E (cache st)"
  obtains
    (hit) j where "int j < E"
      "holds_tag (tag_of s b a) (cache st ! set_of s b a ! j)"
      "accessData s b E st a =
         Some (st\<lparr>hit_count := incr_int (hit_count st),
                  cache := (cache st)[set_of s b a :=
                    touched_set E j (cache st ! set_of s b a)]\<rparr>)"
  | (fill) e where "int e < E"
      "\<forall>j. int j < E \<longrightarrow> \<not> holds_tag (tag_of s b a) (cache st ! set_of s b a ! j)"
      "valid (cache st ! set_of s b a ! e) = 0"
      "accessData s b E st a =
         Some (st\<lparr>miss_count := incr_int (miss_count st),
                  cache := (cache st)[set_of s b a :=
                    touched_set E e ((cache st ! set_of s b a)[e :=
                      (cache st ! set_of s b a ! e)\<lparr>valid := 1, tag := tag_of s b a\<rparr>])]\<rparr>)"
  | (evict) j where "int j < E"
      "\<forall>j. int j < E \<longrightarrow> \<not> holds_tag (tag_of s b a) (cache st ! set_of s b a ! j)"
      "\<forall>j. int j < E \<longrightarrow> valid (cache st ! set_of s b a ! j) \<noteq> 0"
      "accessData s b E st a =
         Some (st\<lparr>miss_count := incr_int (miss_count st), eviction_count := incr_int (eviction_count st),
                  cache := (cache st)[set_of s b a :=
                    touched_set E j ((cache st ! set_of s b a)[j :=
                      (cache st ! set_of s b a ! j)\<lparr>tag := tag_of s b a\<rparr>])]\<rparr>)"
proof (cases "\<exists>j. int j < E \<and> holds_tag (tag_of s b a) (cache st ! set_of s b a ! j)")
  case True
  from accessData_hit_eq [OF g True] obtain j where "int j < E"
      "holds_tag (tag_of s b a) (cache st ! set_of s b a ! j)"
      "accessData s b E st a =
         Some (st\<lparr>hit_count := incr_int (hit_count st),
                  cache := (cache st)[set_of s b a :=
                    touched_set E j (cache st ! set_of s b a)]\<rparr>)"
    by auto
  then show ?thesis by (rule hit)
next
  case False
  then have nh: "\<forall>j. int j < E \<longrightarrow> \<not> holds_tag (tag_of s b a) (cache st ! set_of s b a ! j)"
    by blast
  let ?v = "scan_range (cache st ! set_of s b a) scan_init 0 (nat E)"
  note m = accessData_miss_eq [OF g nh]
  show ?thesis
  proof (cases "empty_index ?v \<noteq> - 1")
    case e: True
    from m(2) [OF e] have "int (nat (empty_index ?v)) < E" by simp
    moreover have "accessData s b E st a =
         Some (st\<lparr>miss_count := incr_int (miss_count st),
                  cache := (cache st)[set_of s b a :=
                    touched_set E (nat (empty_index ?v)) ((cache st ! set_of s b a)[nat (empty_index ?v) :=
                      (cache st ! set_of s b a ! nat (empty_index ?v))\<lparr>valid := 1, tag := tag_of s b a\<rparr>])]\<rparr>)"
      using m(1) e by simp
    moreover have "valid (cache st ! set_of s b a ! nat (empty_index ?v)) = 0"
      using e by (intro empty_index_scan_range_invalid [where v = scan_init])
        (simp_all add: scan_init_def)
    ultimately show ?thesis using nh by (intro fill [of "nat (empty_index ?v)"])
  next
    case e: False
    then have "\<forall>j. 0 \<le> j \<and> j < nat E \<longrightarrow> valid (cache st ! set_of s b a ! j) \<noteq> 0"
      by (intro empty_index_scan_range_valid [where v = scan_init]) simp
    then have "\<forall>j. int j < E \<longrightarrow> valid (cache st ! set_of s b a ! j) \<noteq> 0"
      by auto
    moreover have "accessData s b E st a =
         Some (st\<lparr>miss_count := incr_int (miss_count st), eviction_count := incr_int (eviction_count st),
                  cache := (cache st)[set_of s b a :=
                    touched_set E (lru_index ?v) ((cache st ! set_of s b a)[lru_index ?v :=
                      (cache st ! set_of s b a ! lru_index ?v)\<lparr>tag := tag_of s b a\<rparr>])]\<rparr>)"
      using m(1) e by simp
    ultimately show ?thesis using nh m(3) by (intro evict [of "lru_index ?v"])
  qed
qed

lemma geometry_update:
  assumes "geometry s b E c" "k < length c" "length cs' = length (c ! k)"
  shows "geometry s b E (c[k := cs'])"
proof -
  from assms(1) have all: "\<forall>cs \<in> set c. int (length cs) = E"
    by (simp add: geometry_def)
  have ck: "int (length (c ! k)) = E"
    using all assms(2) nth_mem by blast
  have "\<forall>cs \<in> set (c[k := cs']). int (length cs) = E"
  proof
    fix cs assume "cs \<in> set (c[k := cs'])"
    moreover have "set (c[k := cs']) \<subseteq> insert cs' (set c)"
      by (rule set_update_subset_insert)
    ultimately have "cs = cs' \<or> cs \<in> set c" by blast
    then show "int (length cs) = E"
    proof
      assume "cs = cs'"
      then show ?thesis using ck assms(3) by simp
    next
      assume "cs \<in> set c"
      then show ?thesis using all by simp
    qed
  qed
  moreover have "length (c[k := cs']) = length c" by simp
  ultimately show ?thesis
    using assms(1) unfolding geometry_def by simp
qed

lemma access_stepI:
  assumes "geometry s b E (cache st')"
    and "length (cache st') = length (cache st)"
    and "\<And>k. k \<noteq> set_of s b a \<Longrightarrow> cache st' ! k = cache st ! k"
    and "int j < E" "holds_tag (tag_of s b a) (cache st' ! set_of s b a ! j)"
    and "(hit_count st' = incr_int (hit_count st) \<and> miss_count st' = miss_count st \<and>
        eviction_count st' = eviction_count st \<and>
        (\<exists>j. int j < E \<and> holds_tag (tag_of s b a) (cache st ! set_of s b a ! j)))
       \<or> (hit_count st' = hit_count st \<and> miss_count st' = incr_int (miss_count st) \<and>
           (eviction_count st' = eviction_count st \<or> eviction_count st' = incr_int (eviction_count st)) \<and>
           (\<forall>j. int j < E \<longrightarrow> \<not> holds_tag (tag_of s b a) (cache st ! set_of s b a ! j)))"
  shows "access_step s b E a st st'"
  unfolding access_step_def
  using assms(1,2,3,6) assms(4,5) by (intro conjI allI impI exI [of _ j]) simp_all

lemma accessData_step:
  assumes g: "geometry s b E (cache st)"
  shows "\<exists>st'. accessData s b E st a = Some st' \<and> access_step s b E a st st'"
proof -
  let ?k = "set_of s b a" and ?t = "tag_of s b a"
  let ?cs = "cache st ! ?k"
  note d = geometry_decode [OF g, of a]
  have len: "\<And>j. int j < E \<longleftrightarrow> j < length ?cs" using d(3) by auto
  from g show ?thesis
  proof (cases rule: accessData_cases [where a = a])
    case (hit j)
    let ?st' = "st\<lparr>hit_count := incr_int (hit_count st),
                  cache := (cache st)[?k := touched_set E j ?cs]\<rparr>"
    have jl: "j < length ?cs" using hit(1) len by simp
    have "access_step s b E a st ?st'"
    proof (rule access_stepI [where j = j])
      show "geometry s b E (cache ?st')"
        using geometry_update [OF g d(2), of "touched_set E j ?cs"] by simp
      show "length (cache ?st') = length (cache st)" by simp
      show "\<And>k. k \<noteq> ?k \<Longrightarrow> cache ?st' ! k = cache st ! k" by simp
      show "int j < E" by (rule hit(1))
      show "holds_tag ?t (cache ?st' ! ?k ! j)"
        using hit(2) d(2) jl by (simp add: holds_tag_def)
      have "\<exists>j. int j < E \<and> holds_tag ?t (?cs ! j)" using hit(1,2) by blast
      then show "(hit_count ?st' = incr_int (hit_count st) \<and> miss_count ?st' = miss_count st \<and>
        eviction_count ?st' = eviction_count st \<and>
        (\<exists>j. int j < E \<and> holds_tag ?t (?cs ! j)))
       \<or> (hit_count ?st' = hit_count st \<and> miss_count ?st' = incr_int (miss_count st) \<and>
           (eviction_count ?st' = eviction_count st \<or> eviction_count ?st' = incr_int (eviction_count st)) \<and>
           (\<forall>j. int j < E \<longrightarrow> \<not> holds_tag ?t (?cs ! j)))"
        by simp
    qed
    with hit(3) show ?thesis by (intro exI conjI)
  next
    case (fill e)
    let ?cs1 = "?cs[e := (?cs ! e)\<lparr>valid := 1, tag := ?t\<rparr>]"
    let ?st' = "st\<lparr>miss_count := incr_int (miss_count st),
                  cache := (cache st)[?k := touched_set E e ?cs1]\<rparr>"
    have el: "e < length ?cs" using fill(1) len by simp
    have "access_step s b E a st ?st'"
    proof (rule access_stepI [where j = e])
      show "geometry s b E (cache ?st')"
        using geometry_update [OF g d(2), of "touched_set E e ?cs1"] by simp
      show "length (cache ?st') = length (cache st)" by simp
      show "\<And>k. k \<noteq> ?k \<Longrightarrow> cache ?st' ! k = cache st ! k" by simp
      show "int e < E" by (rule fill(1))
      show "holds_tag ?t (cache ?st' ! ?k ! e)"
        using d(2) el by (simp add: holds_tag_def)
      show "(hit_count ?st' = incr_int (hit_count st) \<and> miss_count ?st' = miss_count st \<and>
        eviction_count ?st' = eviction_count st \<and>
        (\<exists>j. int j < E \<and> holds_tag ?t (?cs ! j)))
       \<or> (hit_count ?st' = hit_count st \<and> miss_count ?st' = incr_int (miss_count st) \<and>
           (eviction_count ?st' = eviction_count st \<or> eviction_count ?st' = incr_int (eviction_count st)) \<and>
           (\<forall>j. int j < E \<longrightarrow> \<not> holds_tag ?t (?cs ! j)))"
        using fill(2) by simp
    qed
    with fill(4) show ?thesis by (intro exI conjI)
  next
    case (evict j)
    let ?cs1 = "?cs[j := (?cs ! j)\<lparr>tag := ?t\<rparr>]"
    let ?st' = "st\<lparr>miss_count := incr_int (miss_count st), eviction_count := incr_int (eviction_count st),
                  cache := (cache st)[?k := touched_set E j ?cs1]\<rparr>"
    have jl: "j < length ?cs" using evict(1) len by simp
    have "access_step s b E a st ?st'"
    proof (rule access_stepI [where j = j])
      show "geometry s b E (cache ?st')"
        using geometry_update [OF g d(2), of "touched_set E j ?cs1"] by simp
      show "length (cache ?st') = length (cache st)" by simp
      show "\<And>k. k \<noteq> ?k \<Longrightarrow> cache ?st' ! k = cache st ! k" by simp
      show "int j < E" by (rule evict(1))
      show "holds_tag ?t (cache ?st' ! ?k ! j)"
        using evict(1,3) d(2) jl by (simp add: holds_tag_def)
      show "(hit_count ?st' = incr_int (hit_count st) \<and> miss_count ?st' = miss_count st \<and>
        eviction_count ?st' = eviction_count st \<and>
        (\<exists>j. int j < E \<and> holds_tag ?t (?cs ! j)))
       \<or> (hit_count ?st' = hit_count st \<and> miss_count ?st' = incr_int (miss_count st) \<and>
           (eviction_count ?st' = eviction_count st \<or> eviction_count ?st' = incr_int (eviction_count st)) \<and>
           (\<forall>j. int j < E \<longrightarrow> \<not> holds_tag ?t (?cs ! j)))"
        using evict(2) by simp
    qed
    with evict(4) show ?thesis by (intro exI conjI)
  qed
qed

lemmas access_simps =
  accessData_def accessData_loop.simps accessData_place_def updateLRU_def
  updateLRU_loop.simps line_at_def set_line_def scan_init_def empty_line_def Let_def
  incr_int_def

lemma incr_int_neq [simp]: "incr_int x \<noteq> x" "x \<noteq> incr_int x"
  by (simp_all add: incr_int_def)

lemma incr_int_plain: "x \<noteq> 2147483647 \<Longrightarrow> incr_int x = x + 1"
  by (simp add: incr_int_def)

lemma counter_growth_simps [simp]:
  "counter_growth x (incr_int x) = 1" "counter_growth x x = 0"
  by (simp_all add: counter_growth_def)

lemma accessData_twice:
  assumes g: "geometry s b E (cache st)"
  shows "\<exists>st1 st2. accessData s b E st a = Some st1 \<and> accessData s b E st1 a = Some st2 \<and>
           counters_delta st st1 \<in> {(1, 0, 0), (0, 1, 0), (0, 1, 1)} \<and>
           counters_delta st1 st2 = (1, 0, 0)"
proof -
  from accessData_step [OF g, of a] obtain st1 where
    r1: "accessData s b E st a = Some st1" and p1: "access_step s b E a st st1" by blast
  from p1 have g1: "geometry s b E (cache st1)"
    and h1: "\<exists>j. int j < E \<and> holds_tag (tag_of s b a) (cache st1 ! set_of s b a ! j)"
    by (simp_all add: access_step_def)
  from accessData_step [OF g1, of a] obtain st2 where
    r2: "accessData s b E st1 a = Some st2" and p2: "access_step s b E a st1 st2" by blast
  from p1 have d1: "counters_delta st st1 \<in> {(1, 0, 0), (0, 1, 0), (0, 1, 1)}"
    unfolding access_step_def counters_delta_def by (elim conjE disjE) simp_all
  from p2 h1 have "hit_count st2 = incr_int (hit_count st1) \<and> miss_count st2 = miss_count st1 \<and>
      eviction_count st2 = eviction_count st1"
    unfolding access_step_def by blast
  then have d2: "counters_delta st1 st2 = (1, 0, 0)"
    by (simp add: counters_delta_def)
  from r1 r2 d1 d2 show ?thesis by blast
qed

lemma updateLRU_set_line:
  assumes "k < length c" "int (length (c ! k)) = E" "j < length (c ! k)"
  shows "updateLRU E (set_line c k j l) k j = Some (c[k := touched_set E j ((c ! k)[j := l])])"
proof -
  let ?c1 = "set_line c k j l"
  have c1: "?c1 ! k = (c ! k)[j := l]" "length ?c1 = length c"
    using assms(1) by (simp_all add: set_line_def)
  have "updateLRU E ?c1 k j = Some (?c1[k := touched_set E j (?c1 ! k)])"
    using assms by (intro updateLRU_eq) (simp_all add: c1)
  also have "?c1[k := touched_set E j (?c1 ! k)] = c[k := touched_set E j ((c ! k)[j := l])]"
    by (simp add: c1) (simp add: set_line_def)
  finally show ?thesis .
qed


subsection \<open>Decoding, recency update and frame of one access\<close>

text \<open>
  Claim C2, as amended. For \<open>s\<close> from 0 to 30, \<open>b\<close> not negative and \<open>s + b\<close> below 64,
  the decoding at the head of \<^verbatim>\<open>accessData\<close> is defined and gives the tag
  \<open>addr >> (s + b)\<close> and the set index \<open>(addr >> b) mod 2 ^ s\<close>. It is a function of
  \<open>s\<close>, \<open>b\<close> and the address alone.
\<close>

theorem decode_in_range:
  assumes "0 \<le> s" "s \<le> 30" "0 \<le> b" "s + b < 64"
  shows "accessData_decode s b a =
    Some (drop_bit (nat (s + b)) a, uint (drop_bit (nat b) a) mod 2 ^ nat s)"
  using assms by (rule decode_eq)

theorem decode_in_range_witness:
  "(0::int) \<le> 4 \<and> (4::int) \<le> 30 \<and> (4::int) + 4 < 64 \<and>
   accessData_decode 4 4 0x7ff0a8 = Some (0x7ff0, 10)"
proof -
  have "accessData_decode 4 4 0x7ff0a8 =
    Some (drop_bit (nat (4 + 4)) 0x7ff0a8, uint (drop_bit (nat 4) (0x7ff0a8 :: 64 word)) mod 2 ^ nat 4)"
    by (rule decode_in_range) simp_all
  then show ?thesis by (simp add: drop_bit_eq_div)
qed

text \<open>
  Claim C2 as stated fails for wide set indices: with \<open>s = 32\<close> and \<open>b = 0\<close> the sum
  \<open>s + b\<close> is well within 64 bits, but \<^verbatim>\<open>1 << s\<close> shifts an \<^verbatim>\<open>int\<close> by its whole width
  and the code has no defined result, so it does not yield the stated pair.
\<close>

theorem decode_wide_index_counterexample:
  "accessData_decode 32 0 1 \<noteq>
     Some (drop_bit (nat (32 + 0)) 1, uint (drop_bit (nat 0) (1 :: 64 word)) mod 2 ^ nat 32)"
  by (simp add: accessData_decode_def shr_addr_def shl_int_def)




text \<open>
  Claim C10. On a cache of \<open>2 ^ s\<close> sets of \<open>E\<close> lines, a call of \<^verbatim>\<open>accessData\<close>
  returns, and every set other than the one selected by the decoded set index is left
  exactly as it was (all its lines, with valid byte, tag and recency counter).
\<close>

theorem accessData_frame:
  assumes "geometry s b E (cache st)"
  shows "\<exists>t setIndex st'. accessData_decode s b a = Some (t, setIndex) \<and>
           accessData s b E st a = Some st' \<and>
           length (cache st') = length (cache st) \<and>
           (\<forall>k. k \<noteq> nat setIndex \<longrightarrow> cache st' ! k = cache st ! k)"
proof -
  from accessData_step [OF assms, of a] obtain st' where
    "accessData s b E st a = Some st'" "access_step s b E a st st'" by blast
  moreover have "accessData_decode s b a = Some (tag_of s b a, int (set_of s b a))"
    using assms by (rule geometry_decode)
  ultimately show ?thesis
    unfolding access_step_def by (intro exI [of _ "tag_of s b a"] exI [of _ "int (set_of s b a)"] exI [of _ st']) simp
qed

theorem accessData_frame_witness:
  "geometry 1 1 1 [[empty_line], [empty_line]] \<and>
   (\<exists>t setIndex st'. accessData_decode 1 1 0x10 = Some (t, setIndex) \<and>
      accessData 1 1 1 \<lparr>cache = [[empty_line], [empty_line]], miss_count = 0, hit_count = 0,
        eviction_count = 0\<rparr> 0x10 = Some st' \<and>
      length (cache st') = 2 \<and>
      (\<forall>k. k \<noteq> nat setIndex \<longrightarrow> cache st' ! k = [[empty_line], [empty_line]] ! k))"
proof -
  have g: "geometry 1 1 1 (cache \<lparr>cache = [[empty_line], [empty_line]], miss_count = 0,
      hit_count = 0, eviction_count = 0\<rparr>)"
    by (simp add: geometry_def)
  from accessData_frame [OF g, of "0x10"] g show ?thesis by (simp add: numeral_2_eq_2)
qed

subsection \<open>Two accesses in a row and Modify records\<close>

text \<open>
  Claim C4. On a cache of \<open>2 ^ s\<close> sets of \<open>E\<close> lines, two calls of \<^verbatim>\<open>accessData\<close> in a
  row on the same address both return; the first is a hit, a miss or a miss with one
  eviction, and the second is always a hit without eviction. A record whose operation
  character is \<^verbatim>\<open>M\<close> is replayed as exactly these two calls on one address, so it yields
  two hits, or a miss and a hit with at most one eviction, made by the first call.
\<close>

theorem modify_double_access:
  assumes g: "geometry s b E (cache st)"
  shows "(\<exists>st1 st2. accessData s b E st a = Some st1 \<and> accessData s b E st1 a = Some st2 \<and>
            counters_delta st st1 \<in> {(1, 0, 0), (0, 1, 0), (0, 1, 1)} \<and>
            counters_delta st1 st2 = (1, 0, 0)) \<and>
         (buf_at (fgets_store (buf rv) line) 1 = CHR ''M'' \<longrightarrow>
            (\<exists>x st1 st2. accessData s b E st x = Some st1 \<and> accessData s b E st1 x = Some st2 \<and>
               replayTrace_loop scan s b E [line] rv st = Some st2 \<and>
               counters_delta st st1 \<in> {(1, 0, 0), (0, 1, 0), (0, 1, 1)} \<and>
               counters_delta st1 st2 = (1, 0, 0)))"
proof (intro conjI impI)
  show "\<exists>st1 st2. accessData s b E st a = Some st1 \<and> accessData s b E st1 a = Some st2 \<and>
            counters_delta st st1 \<in> {(1, 0, 0), (0, 1, 0), (0, 1, 1)} \<and>
            counters_delta st1 st2 = (1, 0, 0)"
    using g by (rule accessData_twice)
next
  assume m: "buf_at (fgets_store (buf rv) line) 1 = CHR ''M''"
  let ?bf = "fgets_store (buf rv) line"
  let ?x = "case scan (c_string_from 3 ?bf) of None \<Rightarrow> addr rv | Some x \<Rightarrow> x"
  from accessData_twice [OF g, of ?x] obtain st1 st2 where
    r: "accessData s b E st ?x = Some st1" "accessData s b E st1 ?x = Some st2" and
    d: "counters_delta st st1 \<in> {(1, 0, 0), (0, 1, 0), (0, 1, 1)}"
      "counters_delta st1 st2 = (1, 0, 0)"
    by blast
  have "replayTrace_loop scan s b E [line] rv st = Some st2"
    using m r by (simp add: Let_def)
  with r d show "\<exists>x st1 st2. accessData s b E st x = Some st1 \<and> accessData s b E st1 x = Some st2 \<and>
               replayTrace_loop scan s b E [line] rv st = Some st2 \<and>
               counters_delta st st1 \<in> {(1, 0, 0), (0, 1, 0), (0, 1, 1)} \<and>
               counters_delta st1 st2 = (1, 0, 0)"
    by blast
qed

theorem modify_double_access_witness:
  "geometry 1 1 1 [[empty_line], [empty_line]] \<and>
   buf_at (fgets_store zero_buf '' M 10,1\<newline>'') 1 = CHR ''M'' \<and>
   (\<exists>x st1 st2.
      accessData 1 1 1 \<lparr>cache = [[empty_line], [empty_line]], miss_count = 0, hit_count = 0,
        eviction_count = 0\<rparr> x = Some st1 \<and>
      accessData 1 1 1 st1 x = Some st2 \<and>
      replayTrace_loop sscanf_llx 1 1 1 ['' M 10,1\<newline>''] \<lparr>buf = zero_buf, addr = 0\<rparr>
        \<lparr>cache = [[empty_line], [empty_line]], miss_count = 0, hit_count = 0,
          eviction_count = 0\<rparr> = Some st2 \<and>
      counters_delta st1 st2 = (1, 0, 0))"
proof -
  let ?st = "\<lparr>cache = [[empty_line], [empty_line]], miss_count = 0, hit_count = 0,
      eviction_count = 0\<rparr>"
  have g: "geometry 1 1 1 (cache ?st)"
    by (simp add: geometry_def)
  have m: "buf_at (fgets_store (buf \<lparr>buf = zero_buf, addr = 0\<rparr>) '' M 10,1\<newline>'') 1 = CHR ''M''"
    by (simp add: buf_at_def fgets_store_def)
  from modify_double_access [OF g, of 0 "\<lparr>buf = zero_buf, addr = 0\<rparr>" "'' M 10,1\<newline>''" sscanf_llx] m
  have "\<exists>x st1 st2. accessData 1 1 1 ?st x = Some st1 \<and> accessData 1 1 1 st1 x = Some st2 \<and>
      replayTrace_loop sscanf_llx 1 1 1 ['' M 10,1\<newline>''] \<lparr>buf = zero_buf, addr = 0\<rparr> ?st = Some st2 \<and>
      counters_delta st1 st2 = (1, 0, 0)"
    by blast
  with g m show ?thesis by simp
qed

subsection \<open>The eviction victim\<close>

text \<open>
  Claim C1. When an access misses in a set whose \<open>E\<close> lines are all valid (recency counters
  not negative, as in the data model), the line whose tag is overwritten is the first, in
  index order, among those with the greatest recency counter: no line has a greater
  counter and every earlier line has a strictly smaller one. The access counts a miss and
  an eviction (by \<^verbatim>\<open>++\<close> on each counter), overwrites that line's tag and calls \<^verbatim>\<open>updateLRU\<close> on it.
\<close>

theorem eviction_victim_first_max:
  assumes g: "geometry s b E (cache st)"
    and d: "accessData_decode s b a = Some (t, setIndex)"
    and full: "\<forall>j. int j < E \<longrightarrow>
        valid (cache st ! nat setIndex ! j) \<noteq> 0 \<and> tag (cache st ! nat setIndex ! j) \<noteq> t \<and>
        0 \<le> lru_counter (cache st ! nat setIndex ! j)"
  shows "\<exists>j c'. int j < E \<and>
      (\<forall>k. int k < E \<longrightarrow>
         lru_counter (cache st ! nat setIndex ! k) \<le> lru_counter (cache st ! nat setIndex ! j)) \<and>
      (\<forall>k. k < j \<longrightarrow>
         lru_counter (cache st ! nat setIndex ! k) < lru_counter (cache st ! nat setIndex ! j)) \<and>
      updateLRU E
        (set_line (cache st) (nat setIndex) j ((cache st ! nat setIndex ! j)\<lparr>tag := t\<rparr>))
        (nat setIndex) j = Some c' \<and>
      accessData s b E st a =
        Some (st\<lparr>miss_count := incr_int (miss_count st),
                 eviction_count := incr_int (eviction_count st),
                 cache := c'\<rparr>)"
proof -
  note gd = geometry_decode [OF g, of a]
  from d gd(1) have t: "t = tag_of s b a" and "setIndex = int (set_of s b a)" by simp_all
  then have k: "nat setIndex = set_of s b a" by simp
  let ?k = "set_of s b a"
  let ?cs = "cache st ! ?k"
  let ?v = "scan_range ?cs scan_init 0 (nat E)"
  let ?j = "lru_index ?v"
  from g have E: "0 < E" by (simp add: geometry_def)
  have nh: "\<forall>j. int j < E \<longrightarrow> \<not> holds_tag (tag_of s b a) (?cs ! j)"
    using full by (simp add: holds_tag_def t k)
  note m = accessData_miss_eq [OF g nh]
  have "\<forall>j. 0 \<le> j \<and> j < nat E \<longrightarrow> valid (?cs ! j) \<noteq> 0"
    using full by (simp add: k)
  then have "empty_index ?v = empty_index scan_init"
    by (rule empty_index_scan_range_full)
  then have e: "empty_index ?v = - 1" by (simp add: scan_init_def)
  have "\<forall>j. j < nat E \<longrightarrow> valid (?cs ! j) \<noteq> 0 \<and> 0 \<le> lru_counter (?cs ! j)"
    using full by (simp add: k)
  from lru_index_scan_range_full [OF this] E
  have fm: "first_max ?cs (nat E) ?j" by auto
  have jl: "?j < length ?cs" using m(3) gd(3) by linarith
  have u: "updateLRU E (set_line (cache st) ?k ?j ((?cs ! ?j)\<lparr>tag := tag_of s b a\<rparr>)) ?k ?j =
      Some ((cache st)[?k := touched_set E ?j (?cs[?j := (?cs ! ?j)\<lparr>tag := tag_of s b a\<rparr>])])"
    using gd(2) gd(3) jl by (rule updateLRU_set_line)
  have acc: "accessData s b E st a =
      Some (st\<lparr>miss_count := incr_int (miss_count st),
                 eviction_count := incr_int (eviction_count st),
               cache := (cache st)[?k := touched_set E ?j (?cs[?j := (?cs ! ?j)\<lparr>tag := tag_of s b a\<rparr>])]\<rparr>)"
    using m(1) e by simp
  have le: "\<forall>k. int k < E \<longrightarrow> lru_counter (?cs ! k) \<le> lru_counter (?cs ! ?j)"
    using fm by (simp add: first_max_def)
  have lt: "\<forall>k. k < ?j \<longrightarrow> lru_counter (?cs ! k) < lru_counter (?cs ! ?j)"
    using fm by (simp add: first_max_def)
  show ?thesis
    unfolding k t
    using m(3) le lt u acc by (intro exI [of _ ?j] exI conjI)
qed

theorem eviction_victim_first_max_witness:
  "geometry 0 0 2 (cache tied_sim) \<and> accessData_decode 0 0 9 = Some (9, 0) \<and>
   accessData 0 0 2 tied_sim 9 =
     Some \<lparr>cache = [[\<lparr>valid = 1, tag = 9, lru_counter = 0\<rparr>,
                      \<lparr>valid = 1, tag = 7, lru_counter = 4\<rparr>]],
           miss_count = 1, hit_count = 0, eviction_count = 1\<rparr>"
proof -
  have g: "geometry 0 0 2 (cache tied_sim)"
    by (simp add: geometry_def tied_sim_def)
  have d: "accessData_decode 0 0 9 = Some (9, 0)"
    by (simp add: accessData_decode_def shr_addr_def shl_int_def)
  have two: "\<And>j. int j < 2 \<longleftrightarrow> j = 0 \<or> j = 1" by auto
  have full: "\<forall>j. int j < 2 \<longrightarrow>
        valid (cache tied_sim ! nat 0 ! j) \<noteq> 0 \<and> tag (cache tied_sim ! nat 0 ! j) \<noteq> 9 \<and>
        0 \<le> lru_counter (cache tied_sim ! nat 0 ! j)"
    unfolding two by (auto simp: tied_sim_def)
  from eviction_victim_first_max [OF g d full] obtain j c' where
    j: "int j < 2"
    and lt: "\<forall>k. k < j \<longrightarrow>
         lru_counter (cache tied_sim ! nat 0 ! k) < lru_counter (cache tied_sim ! nat 0 ! j)"
    and u: "updateLRU 2
        (set_line (cache tied_sim) (nat 0) j ((cache tied_sim ! nat 0 ! j)\<lparr>tag := 9\<rparr>))
        (nat 0) j = Some c'"
    and acc: "accessData 0 0 2 tied_sim 9 =
        Some (tied_sim\<lparr>miss_count := incr_int (miss_count tied_sim),
                eviction_count := incr_int (eviction_count tied_sim), cache := c'\<rparr>)"
    by blast
  have "j = 0"
  proof (rule ccontr)
    assume "j \<noteq> 0"
    with j have "j = 1" by (simp add: two)
    with lt have "lru_counter (cache tied_sim ! nat 0 ! 0) < lru_counter (cache tied_sim ! nat 0 ! 1)"
      by simp
    then show False by (simp add: tied_sim_def)
  qed
  with u have "c' = [[\<lparr>valid = 1, tag = 9, lru_counter = 0\<rparr>,
                      \<lparr>valid = 1, tag = 7, lru_counter = 4\<rparr>]]"
    by (simp add: tied_sim_def updateLRU_def updateLRU_loop.simps line_at_def set_line_def
        incr_int_def)
  with acc have "accessData 0 0 2 tied_sim 9 =
     Some \<lparr>cache = [[\<lparr>valid = 1, tag = 9, lru_counter = 0\<rparr>,
                      \<lparr>valid = 1, tag = 7, lru_counter = 4\<rparr>]],
           miss_count = 1, hit_count = 0, eviction_count = 1\<rparr>"
    by (simp add: tied_sim_def incr_int_def)
  with g d show ?thesis by simp
qed

subsection \<open>No tag twice in a set\<close>

lemma distinct_tags_touched [simp]:
  "distinct_tags (touched_set E li cs) = distinct_tags cs"
  by (auto simp: distinct_tags_def)

lemma distinct_tags_place:
  assumes dt: "distinct_tags cs" and e: "e < length cs"
    and nh: "\<forall>j. j < length cs \<longrightarrow> \<not> holds_tag t (cs ! j)"
    and l: "tag l = t"
  shows "distinct_tags (cs[e := l])"
  unfolding distinct_tags_def
proof (intro allI impI, elim conjE)
  fix i j
  assume ij: "i < length (cs[e := l])" "j < length (cs[e := l])" "i \<noteq> j"
    and v: "valid (cs[e := l] ! i) \<noteq> 0" "valid (cs[e := l] ! j) \<noteq> 0"
  from ij have il: "i < length cs" and jl: "j < length cs" by simp_all
  consider (i) "i = e" | (j) "j = e" | (n) "i \<noteq> e" "j \<noteq> e" by blast
  then show "tag (cs[e := l] ! i) \<noteq> tag (cs[e := l] ! j)"
  proof cases
    case i
    then have "j \<noteq> e" using ij by simp
    with v(2) have "valid (cs ! j) \<noteq> 0" by simp
    with nh jl have "tag (cs ! j) \<noteq> t" by (auto simp: holds_tag_def)
    then show ?thesis using i \<open>j \<noteq> e\<close> e l by auto
  next
    case j
    then have "i \<noteq> e" using ij by simp
    with v(1) have "valid (cs ! i) \<noteq> 0" by simp
    with nh il have "tag (cs ! i) \<noteq> t" by (auto simp: holds_tag_def)
    then show ?thesis using j \<open>i \<noteq> e\<close> e l by auto
  next
    case n
    with v have "valid (cs ! i) \<noteq> 0" "valid (cs ! j) \<noteq> 0" by simp_all
    with dt il jl ij(3) have "tag (cs ! i) \<noteq> tag (cs ! j)"
      unfolding distinct_tags_def by blast
    with n show ?thesis by simp
  qed
qed

lemma no_shared_tag_update:
  assumes "no_shared_tag c" "distinct_tags cs'"
  shows "no_shared_tag (c[k := cs'])"
  unfolding no_shared_tag_def
proof
  fix cs assume "cs \<in> set (c[k := cs'])"
  moreover have "set (c[k := cs']) \<subseteq> insert cs' (set c)"
    by (rule set_update_subset_insert)
  ultimately have "cs = cs' \<or> cs \<in> set c" by blast
  then show "distinct_tags cs"
    using assms unfolding no_shared_tag_def by blast
qed

lemma accessData_no_shared_tag:
  assumes g: "geometry s b E (cache st)" and ns: "no_shared_tag (cache st)"
    and r: "accessData s b E st a = Some st'"
  shows "no_shared_tag (cache st')"
proof -
  let ?k = "set_of s b a" and ?t = "tag_of s b a"
  let ?cs = "cache st ! ?k"
  note d = geometry_decode [OF g, of a]
  have len: "\<And>j. int j < E \<longleftrightarrow> j < length ?cs" using d(3) by auto
  have "?cs \<in> set (cache st)" using d(2) by simp
  with ns have dt: "distinct_tags ?cs" unfolding no_shared_tag_def by blast
  from g show ?thesis
  proof (cases rule: accessData_cases [where a = a])
    case (hit j)
    with r have "cache st' = (cache st)[?k := touched_set E j ?cs]" by auto
    then show ?thesis using no_shared_tag_update [OF ns, of "touched_set E j ?cs" ?k] dt by simp
  next
    case (fill e)
    let ?cs1 = "?cs[e := (?cs ! e)\<lparr>valid := 1, tag := ?t\<rparr>]"
    from fill r have c: "cache st' = (cache st)[?k := touched_set E e ?cs1]" by auto
    have "distinct_tags ?cs1"
      using dt fill(1,2) len by (intro distinct_tags_place [where t = ?t]) simp_all
    then show ?thesis using no_shared_tag_update [OF ns, of "touched_set E e ?cs1" ?k] c by simp
  next
    case (evict j)
    let ?cs1 = "?cs[j := (?cs ! j)\<lparr>tag := ?t\<rparr>]"
    from evict r have c: "cache st' = (cache st)[?k := touched_set E j ?cs1]" by auto
    have "distinct_tags ?cs1"
      using dt evict(1,2) len by (intro distinct_tags_place [where t = ?t]) simp_all
    then show ?thesis using no_shared_tag_update [OF ns, of "touched_set E j ?cs1" ?k] c by simp
  qed
qed

lemma access_all_invariant:
  assumes "geometry s b E (cache st)" "no_shared_tag (cache st)"
  shows "\<exists>st'. access_all s b E st addrs = Some st' \<and>
           geometry s b E (cache st') \<and> no_shared_tag (cache st')"
  using assms
proof (induction addrs arbitrary: st)
  case Nil
  then show ?case by simp
next
  case (Cons a addrs)
  from accessData_step [OF Cons.prems(1), of a] obtain st1 where
    r: "accessData s b E st a = Some st1" and p: "access_step s b E a st st1" by blast
  from p have g1: "geometry s b E (cache st1)" by (simp add: access_step_def)
  have n1: "no_shared_tag (cache st1)"
    using Cons.prems r by (rule accessData_no_shared_tag)
  from Cons.IH [OF g1 n1] r show ?case by simp
qed

lemma initCache_geometry:
  assumes "0 \<le> s" "s \<le> 30" "0 \<le> b" "s + b < 64" "0 < E"
  shows "\<exists>st0. initCache s E = Some st0 \<and> geometry s b E (cache st0) \<and>
           no_shared_tag (cache st0) \<and>
           hit_count st0 = 0 \<and> miss_count st0 = 0 \<and> eviction_count st0 = 0"
proof -
  let ?c = "replicate (2 ^ nat s) (replicate (nat E) empty_line)"
  have i: "initCache s E = Some \<lparr>cache = ?c, miss_count = 0, hit_count = 0, eviction_count = 0\<rparr>"
    using assms by (simp add: initCache_def)
  have "\<forall>cs \<in> set ?c. int (length cs) = E" using assms(5) by auto
  moreover have "int (length ?c) = 2 ^ nat s" by simp
  ultimately have g: "geometry s b E ?c"
    using assms unfolding geometry_def by blast
  have "distinct_tags (replicate (nat E) empty_line)"
    by (simp add: distinct_tags_def empty_line_def)
  then have "no_shared_tag ?c" by (simp add: no_shared_tag_def)
  with i g show ?thesis by simp
qed

text \<open>
  Claim C6. For \<open>s\<close> from 0 to 30, \<open>b\<close> not negative, \<open>s + b\<close> below 64 and at least one
  line per set, \<^verbatim>\<open>initCache\<close> followed by any sequence of calls of \<^verbatim>\<open>accessData\<close>
  returns a state in which no set has two valid lines with the same tag.
\<close>

theorem no_shared_tag_invariant:
  assumes "0 \<le> s" "s \<le> 30" "0 \<le> b" "s + b < 64" "0 < E"
  shows "\<exists>st0 st. initCache s E = Some st0 \<and> access_all s b E st0 addrs = Some st \<and>
           no_shared_tag (cache st)"
proof -
  from initCache_geometry [OF assms] obtain st0 where
    i: "initCache s E = Some st0" and g: "geometry s b E (cache st0)"
    and n: "no_shared_tag (cache st0)" by blast
  from access_all_invariant [OF g n, of addrs] i show ?thesis by blast
qed

theorem no_shared_tag_invariant_witness:
  "(0::int) \<le> 1 \<and> (1::int) \<le> 30 \<and> (1::int) + 1 < 64 \<and> (0::int) < 2 \<and>
   (\<exists>st0 st. initCache 1 2 = Some st0 \<and>
      access_all 1 1 2 st0 [0x10, 0x20, 0x10, 0x30, 0x12] = Some st \<and>
      no_shared_tag (cache st))"
proof -
  have "\<exists>st0 st. initCache 1 2 = Some st0 \<and>
      access_all 1 1 2 st0 [0x10, 0x20, 0x10, 0x30, 0x12] = Some st \<and>
      no_shared_tag (cache st)"
    by (rule no_shared_tag_invariant) simp_all
  then show ?thesis by simp
qed

subsection \<open>Replay of a trace\<close>

lemma buf_at_fgets_store:
  "line \<noteq> [] \<Longrightarrow> buf_at (fgets_store old line) 1 = record_op line"
  by (cases line) (simp_all add: buf_at_def fgets_store_def record_op_def nth_append)

lemma access_count_simps:
  "access_count [] = 0"
  "access_count (line # rest) =
     (if record_op line = CHR ''M'' then 2
      else if record_op line = CHR ''L'' \<or> record_op line = CHR ''S'' then 1 else 0) +
     access_count rest"
  by (auto simp: access_count_def)

lemma access_count_nonneg: "0 \<le> access_count lines"
  by (simp add: access_count_def)

lemma access_step_counts:
  assumes "access_step s b E a st st'"
    and "hit_count st < 2147483647" "miss_count st < 2147483647"
  shows "hit_count st' + miss_count st' = hit_count st + miss_count st + 1"
    and "hit_count st' \<le> hit_count st + 1" and "miss_count st' \<le> miss_count st + 1"
    and "geometry s b E (cache st')"
proof -
  from assms(1) have "(hit_count st' = incr_int (hit_count st) \<and> miss_count st' = miss_count st) \<or>
      (hit_count st' = hit_count st \<and> miss_count st' = incr_int (miss_count st))"
    unfolding access_step_def by blast
  moreover have "incr_int (hit_count st) = hit_count st + 1"
    "incr_int (miss_count st) = miss_count st + 1"
    using assms(2,3) by (simp_all add: incr_int_def)
  ultimately have c: "(hit_count st' = hit_count st + 1 \<and> miss_count st' = miss_count st) \<or>
      (hit_count st' = hit_count st \<and> miss_count st' = miss_count st + 1)"
    by simp
  then show "hit_count st' + miss_count st' = hit_count st + miss_count st + 1" by linarith
  from c show "hit_count st' \<le> hit_count st + 1" by linarith
  from c show "miss_count st' \<le> miss_count st + 1" by linarith
  from assms(1) show "geometry s b E (cache st')"
    unfolding access_step_def by blast
qed

lemma replayTrace_loop_accounting:
  assumes "geometry s b E (cache st)" "\<forall>line \<in> set lines. line \<noteq> []"
    and "hit_count st + access_count lines \<le> 2147483647"
    and "miss_count st + access_count lines \<le> 2147483647"
  shows "\<exists>st'. replayTrace_loop scan s b E lines rv st = Some st' \<and>
           hit_count st' + miss_count st' = hit_count st + miss_count st + access_count lines"
  using assms
proof (induction lines arbitrary: rv st)
  case Nil
  then show ?case by (simp add: access_count_simps)
next
  case (Cons line rest)
  let ?bf = "fgets_store (buf rv) line"
  let ?x = "case scan (c_string_from 3 ?bf) of None \<Rightarrow> addr rv | Some x \<Rightarrow> x"
  note g = Cons.prems(1)
  from Cons.prems have "line \<noteq> []" and ne: "\<forall>line \<in> set rest. line \<noteq> []"
    by simp_all
  then have "buf_at ?bf 1 = record_op line"
    by (intro buf_at_fgets_store)
  then have op: "buf_at ?bf (Suc 0) = record_op line" by simp
  note n0 = access_count_nonneg [of rest]
  consider (m) "record_op line = CHR ''M''"
    | (ls) "record_op line = CHR ''L'' \<or> record_op line = CHR ''S''"
    | (other) "record_op line \<noteq> CHR ''M''" "record_op line \<noteq> CHR ''L''" "record_op line \<noteq> CHR ''S''"
    by blast
  then show ?case
  proof cases
    case m
    then have n: "access_count (line # rest) = 2 + access_count rest"
      by (simp add: access_count_simps)
    from Cons.prems(3,4) n n0 have b0: "hit_count st < 2147483647" "miss_count st < 2147483647"
      by linarith+
    from accessData_step [OF g, of ?x] obtain st1 where
      r1: "accessData s b E st ?x = Some st1" and p1: "access_step s b E ?x st st1" by blast
    note s1 = access_step_counts [OF p1 b0]
    from Cons.prems(3,4) n n0 s1(2,3) have b1: "hit_count st1 < 2147483647" "miss_count st1 < 2147483647"
      by linarith+
    from accessData_step [OF s1(4), of ?x] obtain st2 where
      r2: "accessData s b E st1 ?x = Some st2" and p2: "access_step s b E ?x st1 st2" by blast
    note s2 = access_step_counts [OF p2 b1]
    from Cons.prems(3,4) n s1(2,3) s2(2,3)
    have b2: "hit_count st2 + access_count rest \<le> 2147483647"
      "miss_count st2 + access_count rest \<le> 2147483647"
      by linarith+
    from Cons.IH [OF s2(4) ne b2, of "\<lparr>buf = ?bf, addr = ?x\<rparr>"] obtain st' where
      r: "replayTrace_loop scan s b E rest \<lparr>buf = ?bf, addr = ?x\<rparr> st2 = Some st'" and
      c: "hit_count st' + miss_count st' = hit_count st2 + miss_count st2 + access_count rest"
      by blast
    have "replayTrace_loop scan s b E (line # rest) rv st = Some st'"
      using m r1 r2 r by (simp add: Let_def op)
    moreover have "hit_count st' + miss_count st' =
        hit_count st + miss_count st + access_count (line # rest)"
      using c s1(1) s2(1) n by linarith
    ultimately show ?thesis by blast
  next
    case ls
    then have nm: "record_op line \<noteq> CHR ''M''" by auto
    from ls nm have n: "access_count (line # rest) = 1 + access_count rest"
      by (simp add: access_count_simps)
    from Cons.prems(3,4) n n0 have b0: "hit_count st < 2147483647" "miss_count st < 2147483647"
      by linarith+
    from accessData_step [OF g, of ?x] obtain st1 where
      r1: "accessData s b E st ?x = Some st1" and p1: "access_step s b E ?x st st1" by blast
    note s1 = access_step_counts [OF p1 b0]
    from Cons.prems(3,4) n s1(2,3)
    have b1: "hit_count st1 + access_count rest \<le> 2147483647"
      "miss_count st1 + access_count rest \<le> 2147483647"
      by linarith+
    from Cons.IH [OF s1(4) ne b1, of "\<lparr>buf = ?bf, addr = ?x\<rparr>"] obtain st' where
      r: "replayTrace_loop scan s b E rest \<lparr>buf = ?bf, addr = ?x\<rparr> st1 = Some st'" and
      c: "hit_count st' + miss_count st' = hit_count st1 + miss_count st1 + access_count rest"
      by blast
    have "replayTrace_loop scan s b E (line # rest) rv st = Some st'"
      using ls nm r1 r by (auto simp: Let_def op)
    moreover have "hit_count st' + miss_count st' =
        hit_count st + miss_count st + access_count (line # rest)"
      using c s1(1) n by linarith
    ultimately show ?thesis by blast
  next
    case other
    then have n: "access_count (line # rest) = access_count rest"
      by (simp add: access_count_simps)
    from Cons.prems(3,4) n
    have b: "hit_count st + access_count rest \<le> 2147483647"
      "miss_count st + access_count rest \<le> 2147483647"
      by linarith+
    from Cons.IH [OF g ne b, of "rv\<lparr>buf := ?bf\<rparr>"] obtain st' where
      r: "replayTrace_loop scan s b E rest (rv\<lparr>buf := ?bf\<rparr>) st = Some st'" and
      c: "hit_count st' + miss_count st' = hit_count st + miss_count st + access_count rest"
      by blast
    have "replayTrace_loop scan s b E (line # rest) rv st = Some st'"
      using other r by (simp add: Let_def op)
    then show ?thesis using c n by simp
  qed
qed

subsection \<open>Runs on concrete traces\<close>

lemmas scan_simps = fgets_store_def buf_at_def c_string_from_def sscanf_llx_def strip_sign_def
  strip_0x_def isspace_def hex_digit_def

lemma initCache_1_1:
  "initCache 1 1 = Some \<lparr>cache = [[empty_line], [empty_line]], miss_count = 0, hit_count = 0,
     eviction_count = 0\<rparr>"
  by (simp add: initCache_def numeral_2_eq_2)

lemma geometry_1_1_1: "geometry 1 1 1 [[empty_line], [empty_line]]"
  by (simp add: geometry_def)

lemma decode_example:
  "accessData_decode 1 0 0 = Some (0, 0)" "accessData_decode 1 0 2 = Some (1, 0)"
  "accessData_decode 1 0 4 = Some (2, 0)"
  by (simp_all add: accessData_decode_def shr_addr_def shl_int_def drop_bit_eq_div)

lemma access_example_1:
  "accessData 1 0 1 \<lparr>cache = [[empty_line], [empty_line]], miss_count = 0, hit_count = 0,
      eviction_count = 0\<rparr> 0 =
   Some \<lparr>cache = [[\<lparr>valid = 1, tag = 0, lru_counter = 0\<rparr>], [empty_line]], miss_count = 1,
      hit_count = 0, eviction_count = 0\<rparr>"
  by (simp add: decode_example access_simps)

lemma access_example_2:
  "accessData 1 0 1 \<lparr>cache = [[\<lparr>valid = 1, tag = 0, lru_counter = 0\<rparr>], [empty_line]],
      miss_count = 1, hit_count = 0, eviction_count = 0\<rparr> 2 =
   Some \<lparr>cache = [[\<lparr>valid = 1, tag = 1, lru_counter = 0\<rparr>], [empty_line]], miss_count = 2,
      hit_count = 0, eviction_count = 1\<rparr>"
  by (simp add: decode_example access_simps)

lemma access_example_3:
  "accessData 1 0 1 \<lparr>cache = [[\<lparr>valid = 1, tag = 1, lru_counter = 0\<rparr>], [empty_line]],
      miss_count = 2, hit_count = 0, eviction_count = 1\<rparr> 4 =
   Some \<lparr>cache = [[\<lparr>valid = 1, tag = 2, lru_counter = 0\<rparr>], [empty_line]], miss_count = 3,
      hit_count = 0, eviction_count = 2\<rparr>"
  by (simp add: decode_example access_simps)

lemma scan_example:
  "buf_at (fgets_store old '' L 0,1\<newline>'') (Suc 0) = CHR ''L''"
  "sscanf_llx (c_string_from 3 (fgets_store old '' L 0,1\<newline>'')) = Some 0"
  "buf_at (fgets_store old '' L 2,1\<newline>'') (Suc 0) = CHR ''L''"
  "sscanf_llx (c_string_from 3 (fgets_store old '' L 2,1\<newline>'')) = Some 2"
  "buf_at (fgets_store old '' L 4,1\<newline>'') (Suc 0) = CHR ''L''"
  "sscanf_llx (c_string_from 3 (fgets_store old '' L 4,1\<newline>'')) = Some 4"
  by (simp_all add: scan_simps)

text \<open>
  Claim C9. With \<open>s = 1\<close>, \<open>b = 0\<close>, \<open>E = 1\<close>, the addresses 0, 2 and 4 decode to set index 0
  with the tags 0, 1 and 2, and \<^verbatim>\<open>initCache\<close> followed by the replay of the three records
  \<^verbatim>\<open> L 0,1\<close>, \<^verbatim>\<open> L 2,1\<close>, \<^verbatim>\<open> L 4,1\<close> (in the trace format, the operation character second on
  the line) ends with 0 hits, 3 misses and 2 evictions.
\<close>

theorem end_to_end_example:
  "accessData_decode 1 0 0 = Some (0, 0) \<and> accessData_decode 1 0 2 = Some (1, 0) \<and>
   accessData_decode 1 0 4 = Some (2, 0) \<and>
   map_option counters
     (Option.bind (initCache 1 1)
        (replayTrace sscanf_llx 1 0 1 buf0
           (Some ['' L 0,1\<newline>'', '' L 2,1\<newline>'', '' L 4,1\<newline>'']))) =
     Some (0, 3, 2)"
  by (simp add: decode_example initCache_1_1 replayTrace_def Let_def scan_example
      access_example_1 access_example_2 access_example_3 counters_def)

theorem end_to_end_example_witness:
  "map_option counters
     (Option.bind (initCache 1 1)
        (replayTrace sscanf_llx 1 0 1 zero_buf
           (Some ['' L 0,1\<newline>'', '' L 2,1\<newline>'', '' L 4,1\<newline>'']))) =
     Some (0, 3, 2)"
  using end_to_end_example [of zero_buf] by simp

subsection \<open>Accounting, skipped records and the check of the arguments\<close>

text \<open>
  Claim C5, as amended. On a cache of \<open>2 ^ s\<close> sets of \<open>E\<close> lines the replay of any trace
  that keeps the hit counter and the miss counter within the range of an \<^verbatim>\<open>int\<close> returns,
  and hits plus misses grow by the number of records whose operation character is \<^verbatim>\<open>L\<close>
  or \<^verbatim>\<open>S\<close> plus twice the number of those whose operation character is \<^verbatim>\<open>M\<close>, whether
  or not their address parses; every other record adds nothing.
\<close>

theorem replay_accounting:
  assumes "geometry s b E (cache st)" "\<forall>line \<in> set lines. line \<noteq> []"
    and "hit_count st + access_count lines \<le> 2147483647"
    and "miss_count st + access_count lines \<le> 2147483647"
  shows "\<exists>st'. replayTrace scan s b E buf0 (Some lines) st = Some st' \<and>
           hit_count st' + miss_count st' =
             hit_count st + miss_count st +
             int (length (filter (\<lambda>line. record_op line = CHR ''L'' \<or> record_op line = CHR ''S'') lines)) +
             2 * int (length (filter (\<lambda>line. record_op line = CHR ''M'') lines))"
  using replayTrace_loop_accounting [OF assms, of scan "\<lparr>buf = buf0, addr = 0\<rparr>"]
  by (simp add: replayTrace_def access_count_def add.assoc)

theorem replay_accounting_witness:
  "geometry 1 1 1 [[empty_line], [empty_line]] \<and>
   (0::int) + access_count ['' M 10,1\<newline>'', '' X 10,1\<newline>'', ''I  0400d7d4,8\<newline>'', '' L 18,1\<newline>'']
     \<le> 2147483647 \<and>
   (\<exists>st'. replayTrace sscanf_llx 1 1 1 zero_buf
        (Some ['' M 10,1\<newline>'', '' X 10,1\<newline>'', ''I  0400d7d4,8\<newline>'', '' L 18,1\<newline>''])
        \<lparr>cache = [[empty_line], [empty_line]], miss_count = 0, hit_count = 0,
          eviction_count = 0\<rparr> = Some st' \<and>
      hit_count st' + miss_count st' = 3)"
proof -
  let ?st = "\<lparr>cache = [[empty_line], [empty_line]], miss_count = 0, hit_count = 0,
      eviction_count = 0\<rparr>"
  let ?lines = "['' M 10,1\<newline>'', '' X 10,1\<newline>'', ''I  0400d7d4,8\<newline>'', '' L 18,1\<newline>'']"
  have g: "geometry 1 1 1 (cache ?st)" by (simp add: geometry_1_1_1)
  have ne: "\<forall>line \<in> set ?lines. line \<noteq> []" by simp
  have n: "access_count ?lines = 3"
    by (simp add: access_count_def record_op_def buf_at_def)
  have b: "hit_count ?st + access_count ?lines \<le> 2147483647"
    "miss_count ?st + access_count ?lines \<le> 2147483647"
    by (simp_all add: n)
  from replay_accounting [OF g ne b, of sscanf_llx zero_buf] g n
  show ?thesis by (simp add: record_op_def buf_at_def)
qed

lemma hot_access: "accessData 1 1 1 (hot_sim h) 0 = Some (hot_sim (incr_int h))"
  by (simp add: hot_sim_def accessData_decode_def shr_addr_def shl_int_def access_simps)

lemma first_load:
  "accessData 1 1 1 \<lparr>cache = [[empty_line], [empty_line]], miss_count = 0, hit_count = 0,
      eviction_count = 0\<rparr> 0 = Some (hot_sim 0)"
  by (simp add: hot_sim_def accessData_decode_def shr_addr_def shl_int_def access_simps)

lemma replay_hot:
  "replayTrace_loop sscanf_llx 1 1 1 (replicate n '' L 0,1\<newline>'') rv (hot_sim h) =
     Some (hot_sim ((incr_int ^^ n) h))"
proof (induction n arbitrary: rv h)
  case 0
  then show ?case by simp
next
  case (Suc n)
  have "replayTrace_loop sscanf_llx 1 1 1 (replicate (Suc n) '' L 0,1\<newline>'') rv (hot_sim h) =
      replayTrace_loop sscanf_llx 1 1 1 (replicate n '' L 0,1\<newline>'')
        \<lparr>buf = fgets_store (buf rv) '' L 0,1\<newline>'', addr = 0\<rparr> (hot_sim (incr_int h))"
    by (simp add: Let_def scan_example hot_access)
  also have "\<dots> = Some (hot_sim ((incr_int ^^ n) (incr_int h)))"
    by (rule Suc.IH)
  also have "(incr_int ^^ n) (incr_int h) = (incr_int ^^ Suc n) h"
    by (simp add: funpow_swap1)
  finally show ?case .
qed

lemma funpow_incr_int:
  "x + int n \<le> 2147483647 \<Longrightarrow> (incr_int ^^ n) x = x + int n"
proof (induction n)
  case 0
  then show ?case by simp
next
  case (Suc n)
  then have ih: "(incr_int ^^ n) x = x + int n" by simp
  from Suc.prems have ne: "x + int n \<noteq> 2147483647" by simp
  have "(incr_int ^^ Suc n) x = incr_int ((incr_int ^^ n) x)"
    by (simp only: funpow.simps o_apply)
  also have "\<dots> = incr_int (x + int n)" by (simp only: ih)
  also have "\<dots> = x + int n + 1" using ne by (rule incr_int_plain)
  finally show ?case by simp
qed

lemma hits_wrap: "(incr_int ^^ 2147483648) 0 = - 2147483648"
proof -
  have n: "(2147483648::nat) = Suc 2147483647" by simp
  have "(incr_int ^^ 2147483647) 0 = 0 + int 2147483647"
    by (rule funpow_incr_int) simp
  then have m: "(incr_int ^^ 2147483647) 0 = 2147483647" by simp
  have "(incr_int ^^ Suc 2147483647) 0 = incr_int ((incr_int ^^ 2147483647) 0)"
    by (simp only: funpow.simps o_apply)
  also have "\<dots> = - 2147483648" by (simp only: m) (simp add: incr_int_def)
  finally show ?thesis unfolding n .
qed

lemma long_trace:
  "main sscanf_llx (\<lambda>trace_fn. Some (replicate 2147483649 '' L 0,1\<newline>'')) zero_buf 1 1 1
     (Some ''t'') = Summary (- 2147483648) 1 0"
proof -
  have n: "replicate 2147483649 '' L 0,1\<newline>'' =
      '' L 0,1\<newline>'' # replicate 2147483648 '' L 0,1\<newline>''"
  proof -
    have "(2147483649::nat) = Suc 2147483648" by simp
    then show ?thesis by (simp only: replicate.simps)
  qed
  have first: "replayTrace sscanf_llx 1 1 1 zero_buf (Some ('' L 0,1\<newline>'' # rest))
      \<lparr>cache = [[empty_line], [empty_line]], miss_count = 0, hit_count = 0, eviction_count = 0\<rparr> =
    replayTrace_loop sscanf_llx 1 1 1 rest
      \<lparr>buf = fgets_store zero_buf '' L 0,1\<newline>'', addr = 0\<rparr> (hot_sim 0)" for rest
    by (simp add: replayTrace_def Let_def scan_example first_load)
  have "replayTrace sscanf_llx 1 1 1 zero_buf (Some (replicate 2147483649 '' L 0,1\<newline>''))
      \<lparr>cache = [[empty_line], [empty_line]], miss_count = 0, hit_count = 0, eviction_count = 0\<rparr> =
      Some (hot_sim (- 2147483648))"
    by (simp only: n first replay_hot hits_wrap)
  then show ?thesis
    by (simp add: main_def initCache_1_1 hot_sim_def)
qed

lemma long_trace_count:
  "spec_access_count sscanf_llx (replicate 2147483649 '' L 0,1\<newline>'') = 2147483649"
proof -
  have "record_op '' L 0,1\<newline>'' = CHR ''L''"
    by (simp add: record_op_def buf_at_def)
  moreover have "sscanf_llx (c_string_from 3 ('' L 0,1\<newline>'' @ [CHR 0x00])) = Some 0"
    by (simp add: scan_simps)
  ultimately show ?thesis
    by (simp add: spec_access_count_def)
qed

text \<open>
  Claim C5 as stated fails in two ways. A record with operation character \<^verbatim>\<open>L\<close> whose
  address does not parse is malformed for the specification and should count zero, but
  the replay calls \<^verbatim>\<open>accessData\<close> for it and the run ends with one miss. And on a
  trace of 2147483649 well-formed Load records of one address the hit counter, an
  \<^verbatim>\<open>int\<close>, overflows: the run reports -2147483648 hits and 1 miss.
\<close>

theorem malformed_record_counted_counterexample:
  "main sscanf_llx (\<lambda>trace_fn. Some ['' L zz,1\<newline>'']) zero_buf 1 1 1 (Some ''t'') = Summary 0 1 0 \<and>
   spec_access_count sscanf_llx ['' L zz,1\<newline>''] = 0 \<and>
   main sscanf_llx (\<lambda>trace_fn. Some (replicate 2147483649 '' L 0,1\<newline>'')) zero_buf 1 1 1
     (Some ''t'') = Summary (- 2147483648) 1 0 \<and>
   spec_access_count sscanf_llx (replicate 2147483649 '' L 0,1\<newline>'') = 2147483649"
proof -
  have "main sscanf_llx (\<lambda>trace_fn. Some ['' L zz,1\<newline>'']) zero_buf 1 1 1 (Some ''t'') = Summary 0 1 0"
    by (simp add: main_def initCache_1_1 replayTrace_def Let_def scan_simps access_simps
        accessData_decode_def shr_addr_def shl_int_def)
  moreover have "spec_access_count sscanf_llx ['' L zz,1\<newline>''] = 0"
    by (simp add: scan_simps spec_access_count_def record_op_def)
  ultimately show ?thesis
    using long_trace long_trace_count by simp
qed

text \<open>
  Claim C7, as amended. A record whose operation character (the character read at
  \<^verbatim>\<open>buf[1]\<close>) is none of \<^verbatim>\<open>S\<close>, \<^verbatim>\<open>L\<close>, \<^verbatim>\<open>M\<close> is skipped: the replay goes on with the next
  record from the same cache, the same statistics and the same remembered address; only
  the line buffer holds the skipped record.
\<close>

theorem unrecognised_record_skipped:
  assumes "buf_at (fgets_store (buf rv) line) 1 \<noteq> CHR ''S''"
    "buf_at (fgets_store (buf rv) line) 1 \<noteq> CHR ''L''"
    "buf_at (fgets_store (buf rv) line) 1 \<noteq> CHR ''M''"
  shows "replayTrace_loop scan s b E (line # rest) rv st =
           replayTrace_loop scan s b E rest (rv\<lparr>buf := fgets_store (buf rv) line\<rparr>) st"
  using assms by (simp add: Let_def)

theorem unrecognised_record_skipped_witness:
  "buf_at (fgets_store zero_buf ''I  0400d7d4,8\<newline>'') 1 \<noteq> CHR ''S'' \<and>
   buf_at (fgets_store zero_buf ''I  0400d7d4,8\<newline>'') 1 \<noteq> CHR ''L'' \<and>
   buf_at (fgets_store zero_buf ''I  0400d7d4,8\<newline>'') 1 \<noteq> CHR ''M'' \<and>
   replayTrace_loop sscanf_llx 1 1 1 [''I  0400d7d4,8\<newline>''] \<lparr>buf = zero_buf, addr = 0\<rparr>
     \<lparr>cache = [[empty_line], [empty_line]], miss_count = 0, hit_count = 0, eviction_count = 0\<rparr> =
   Some \<lparr>cache = [[empty_line], [empty_line]], miss_count = 0, hit_count = 0, eviction_count = 0\<rparr>"
proof -
  have h: "buf_at (fgets_store (buf \<lparr>buf = zero_buf, addr = 0\<rparr>) ''I  0400d7d4,8\<newline>'') 1 \<noteq> CHR ''S''"
    "buf_at (fgets_store (buf \<lparr>buf = zero_buf, addr = 0\<rparr>) ''I  0400d7d4,8\<newline>'') 1 \<noteq> CHR ''L''"
    "buf_at (fgets_store (buf \<lparr>buf = zero_buf, addr = 0\<rparr>) ''I  0400d7d4,8\<newline>'') 1 \<noteq> CHR ''M''"
    by (simp_all add: buf_at_def fgets_store_def)
  from unrecognised_record_skipped [OF h, of sscanf_llx 1 1 1 "[]"] h
  show ?thesis by (simp del: replayTrace_loop.simps(2) add: replayTrace_loop.simps(1))
qed

text \<open>
  Claim C7 as stated fails on a record with operation character \<^verbatim>\<open>M\<close> whose address does
  not parse: the return value of \<^verbatim>\<open>sscanf\<close> is not looked at, so the record is replayed
  on the address left in \<open>addr\<close> (here the initial 0) and the run ends with one miss and one
  hit instead of leaving the statistics at zero.
\<close>

theorem unparsed_record_replayed_counterexample:
  "sscanf_llx (c_string_from 3 (fgets_store zero_buf '' M qq,4\<newline>'')) = None \<and>
   main sscanf_llx (\<lambda>trace_fn. Some ['' M qq,4\<newline>'']) zero_buf 1 1 1 (Some ''t'') = Summary 1 1 0"
  by (simp add: main_def initCache_1_1 replayTrace_def Let_def scan_simps access_simps
      accessData_decode_def shr_addr_def shl_int_def)

text \<open>
  Claim C8, as amended. The program ends in \<^verbatim>\<open>printUsage\<close>, before the cache is
  initialised or any record replayed, exactly when \<open>s = 0\<close>, \<open>E = 0\<close>, \<open>b = 0\<close> or no trace
  file is named; negative values of \<open>s\<close>, \<open>b\<close> or \<open>E\<close> are not refused.
\<close>

theorem main_refuses_missing_arguments:
  "main scan fopen buf0 s E b trace_file = printUsage \<longleftrightarrow>
     s = 0 \<or> E = 0 \<or> b = 0 \<or> trace_file = None"
  by (simp add: main_def printUsage_def split: option.split)

theorem main_refuses_missing_arguments_witness:
  "main sscanf_llx (\<lambda>trace_fn. Some ['' L 10,1\<newline>'']) zero_buf 4 0 4 (Some ''t'') = printUsage \<and>
   main sscanf_llx (\<lambda>trace_fn. Some ['' L 10,1\<newline>'']) zero_buf 4 1 4 None = printUsage"
  using main_refuses_missing_arguments [of sscanf_llx "\<lambda>trace_fn. Some ['' L 10,1\<newline>'']" zero_buf 4 0 4 "Some ''t''"]
    main_refuses_missing_arguments [of sscanf_llx "\<lambda>trace_fn. Some ['' L 10,1\<newline>'']" zero_buf 4 1 4 None]
  by simp

text \<open>
  Claim C8 as stated fails for a negative \<open>s\<close>: with \<open>s = - 1\<close>, \<open>E = 1\<close>, \<open>b = 1\<close> and an empty
  trace file the check of the arguments passes, the (empty) cache is initialised, the trace
  is replayed and the summary is reported.
\<close>

theorem negative_set_bits_counterexample:
  "main sscanf_llx (\<lambda>trace_fn. Some []) zero_buf (- 1) 1 1 (Some ''t'') = Summary 0 0 0"
  by (simp add: main_def initCache_def replayTrace_def)

end
